theory Spec2Isabelle
  imports Complex_Main
begin

section \<open>KPFCNN with middle fusion: the architecture builder, the loss and the accuracy\<close>

text \<open>
  A shallow embedding of \<^verbatim>\<open>models/architectures_sphere_middle_fusion.py\<close>.
  Python integers are \<open>int\<close>, Python floats are read as exact reals, 1-D tensors are
  lists, and every \<^verbatim>\<open>raise\<close> is a value \<open>Inl\<close> of a sum type.
\<close>

subsection \<open>Python primitives\<close>

datatype 'e py_error =
    ValueError string
  | IndexError
  | ZeroDivisionError
  | RuntimeError
  | NonFinite
  | External 'e

text \<open>
  \<open>NonFinite\<close> is not an exception: it stands for a float result that is \<open>inf\<close> or
  \<open>nan\<close> (a division by zero on tensors, the mean of an empty tensor), which the
  real numbers cannot hold. \<open>External\<close> carries an exception of code outside this file.
\<close>

text \<open>\<^verbatim>\<open>xs[i]\<close> on a Python list: an index below zero is taken from the end.\<close>

definition py_getitem :: "'a list \<Rightarrow> int \<Rightarrow> 'a option" where
  "py_getitem xs i =
     (if 0 \<le> i \<and> i < int (length xs) then Some (xs ! nat i)
      else if i < 0 \<and> - int (length xs) \<le> i then Some (xs ! nat (int (length xs) + i))
      else None)"

text \<open>\<^verbatim>\<open>sub in s\<close> on Python strings: \<open>sub\<close> occurs in \<open>s\<close> as a contiguous run.\<close>

fun str_startswith :: "string \<Rightarrow> string \<Rightarrow> bool" where
  "str_startswith s [] = True"
| "str_startswith [] (p # ps) = False"
| "str_startswith (c # cs) (p # ps) = (c = p \<and> str_startswith cs ps)"

fun str_in :: "string \<Rightarrow> string \<Rightarrow> bool" where
  "str_in sub [] = (sub = [])"
| "str_in sub (c # cs) = (str_startswith (c # cs) sub \<or> str_in sub cs)"

subsection \<open>Configuration and builder state\<close>

record config =
  architecture :: "string list"
  first_subsampling_dl :: real
  conv_radius :: real
  in_features_dim_3d :: int
  in_features_dim_2d :: int
  first_features_dim :: int
  num_kernel_points :: nat
  class_w :: "real list"
  deform_fitting_mode :: string
  deform_fitting_power :: real
  deform_lr_factor :: real
  repulse_extent :: real

text \<open>
  The local variables of \<^verbatim>\<open>__init__\<close> (\<open>layer\<close>, \<open>r\<close> as \<open>radius\<close>,
  \<open>in_dim_3d\<close>, \<open>in_dim_2d\<close>, \<open>in_dim\<close>, \<open>out_dim\<close>) and the lists it fills.
\<close>

record 'm builder =
  layer :: int
  radius :: real
  in_dim_3d :: int
  in_dim_2d :: int
  in_dim :: int
  out_dim :: int
  encoder_blocks_3d :: "'m list"
  encoder_blocks_2d :: "'m list"
  encoder_skip_dims :: "int list"
  encoder_skips :: "nat list"
  decoder_blocks :: "'m list"
  decoder_concats :: "nat list"

text \<open>
  \<^verbatim>\<open>block_decider(block, r, in_dim, out_dim, layer, config)\<close> lives in
  \<^verbatim>\<open>models/blocks.py\<close>; it is a parameter here, returning the layer object or the
  exception it raises.
\<close>

type_synonym ('e, 'm) decider =
  "string \<Rightarrow> real \<Rightarrow> int \<Rightarrow> int \<Rightarrow> int \<Rightarrow> config \<Rightarrow> 'e + 'm"

definition init_builder :: "config \<Rightarrow> 'm builder" where
  "init_builder config =
     \<lparr> layer = 0,
       radius = first_subsampling_dl config * conv_radius config,
       in_dim_3d = in_features_dim_3d config,
       in_dim_2d = in_features_dim_2d config,
       in_dim = 0,
       out_dim = first_features_dim config,
       encoder_blocks_3d = [],
       encoder_blocks_2d = [],
       encoder_skip_dims = [],
       encoder_skips = [],
       decoder_blocks = [],
       decoder_concats = [] \<rparr>"

subsection \<open>Encoder loop\<close>

definition is_skip_tap :: "string \<Rightarrow> bool" where
  "is_skip_tap block =
     list_ex (\<lambda>tmp. str_in tmp block) [''pool'', ''strided'', ''upsample'', ''global'']"

definition is_subsampling :: "string \<Rightarrow> bool" where
  "is_subsampling block = (str_in ''pool'' block \<or> str_in ''strided'' block)"

definition record_skip :: "nat \<Rightarrow> string \<Rightarrow> 'm builder \<Rightarrow> 'm builder" where
  "record_skip block_i block s =
     (if is_skip_tap block
      then s\<lparr> encoder_skips := encoder_skips s @ [block_i],
              encoder_skip_dims := encoder_skip_dims s @ [in_dim_3d s + in_dim_2d s] \<rparr>
      else s)"

definition encoder_update :: "string \<Rightarrow> 'm \<Rightarrow> 'm \<Rightarrow> 'm builder \<Rightarrow> 'm builder" where
  "encoder_update block b3 b2 s =
     (let s1 = s\<lparr> encoder_blocks_3d := encoder_blocks_3d s @ [b3],
                  encoder_blocks_2d := encoder_blocks_2d s @ [b2] \<rparr>;
          s2 = (if str_in ''simple'' block
                then s1\<lparr> in_dim_3d := out_dim s1 div 2, in_dim_2d := out_dim s1 div 2 \<rparr>
                else s1\<lparr> in_dim_3d := out_dim s1, in_dim_2d := out_dim s1 \<rparr>)
      in if is_subsampling block
         then s2\<lparr> layer := layer s2 + 1, radius := radius s2 * 2, out_dim := out_dim s2 * 2 \<rparr>
         else s2)"

text \<open>One iteration of the encoder loop; the flag says whether the loop breaks.\<close>

definition encoder_step ::
  "('e, 'm) decider \<Rightarrow> config \<Rightarrow> nat \<Rightarrow> string \<Rightarrow> 'm builder
     \<Rightarrow> 'e py_error + (bool \<times> 'm builder)" where
  "encoder_step block_decider config block_i block s =
     (if str_in ''equivariant'' block \<and> \<not> (out_dim s mod 3 = 0)
      then Inl (ValueError ''Equivariant block but features dimension is not a factor of 3'')
      else let s1 = record_skip block_i block s in
        if str_in ''upsample'' block then Inr (True, s1)
        else (case block_decider block (radius s1) (in_dim_3d s1) (out_dim s1) (layer s1) config of
                Inl e \<Rightarrow> Inl (External e)
              | Inr b3 \<Rightarrow>
                 (case block_decider block (radius s1) (in_dim_2d s1) (out_dim s1) (layer s1) config
                  of
                    Inl e \<Rightarrow> Inl (External e)
                  | Inr b2 \<Rightarrow> Inr (False, encoder_update block b3 b2 s1))))"

fun encoder_loop ::
  "('e, 'm) decider \<Rightarrow> config \<Rightarrow> nat \<Rightarrow> string list \<Rightarrow> 'm builder
     \<Rightarrow> 'e py_error + 'm builder" where
  "encoder_loop block_decider config block_i [] s = Inr s"
| "encoder_loop block_decider config block_i (block # rest) s =
     (case encoder_step block_decider config block_i block s of
        Inl e \<Rightarrow> Inl e
      | Inr (stop, s') \<Rightarrow>
          if stop then Inr s' else encoder_loop block_decider config (Suc block_i) rest s')"

subsection \<open>Decoder loop\<close>

text \<open>The index of the first block containing \<open>upsample\<close>, or 0 when there is none.\<close>

fun find_start_i :: "nat \<Rightarrow> string list \<Rightarrow> nat" where
  "find_start_i block_i [] = 0"
| "find_start_i block_i (block # rest) =
     (if str_in ''upsample'' block then block_i else find_start_i (Suc block_i) rest)"

definition decoder_concat ::
  "string list \<Rightarrow> nat \<Rightarrow> nat \<Rightarrow> 'm builder \<Rightarrow> 'e py_error + 'm builder" where
  "decoder_concat arch start_i block_i s =
     (if block_i > 0 then
        (case py_getitem arch (int start_i + int block_i - 1) of
           None \<Rightarrow> Inl IndexError
         | Some prev \<Rightarrow>
            if str_in ''upsample'' prev then
              (case py_getitem (encoder_skip_dims s) (layer s) of
                 None \<Rightarrow> Inl IndexError
               | Some d \<Rightarrow> Inr (s\<lparr> in_dim := in_dim s + d,
                                   decoder_concats := decoder_concats s @ [block_i] \<rparr>))
            else Inr s)
      else Inr s)"

definition decoder_update :: "string \<Rightarrow> 'm \<Rightarrow> 'm builder \<Rightarrow> 'm builder" where
  "decoder_update block b s =
     (let s1 = s\<lparr> decoder_blocks := decoder_blocks s @ [b], in_dim := out_dim s \<rparr>
      in if str_in ''upsample'' block
         then s1\<lparr> layer := layer s1 - 1, radius := radius s1 * (1 / 2),
                  out_dim := out_dim s1 div 2 \<rparr>
         else s1)"

definition decoder_step ::
  "('e, 'm) decider \<Rightarrow> config \<Rightarrow> nat \<Rightarrow> nat \<Rightarrow> string \<Rightarrow> 'm builder
     \<Rightarrow> 'e py_error + 'm builder" where
  "decoder_step block_decider config start_i block_i block s =
     (case decoder_concat (architecture config) start_i block_i s of
        Inl e \<Rightarrow> Inl e
      | Inr s1 \<Rightarrow>
         (case block_decider block (radius s1) (in_dim s1) (out_dim s1) (layer s1) config of
            Inl e \<Rightarrow> Inl (External e)
          | Inr b \<Rightarrow> Inr (decoder_update block b s1)))"

fun decoder_loop ::
  "('e, 'm) decider \<Rightarrow> config \<Rightarrow> nat \<Rightarrow> nat \<Rightarrow> string list \<Rightarrow> 'm builder
     \<Rightarrow> 'e py_error + 'm builder" where
  "decoder_loop block_decider config start_i block_i [] s = Inr s"
| "decoder_loop block_decider config start_i block_i (block # rest) s =
     (case decoder_step block_decider config start_i block_i block s of
        Inl e \<Rightarrow> Inl e
      | Inr s' \<Rightarrow> decoder_loop block_decider config start_i (Suc block_i) rest s')"

subsection \<open>The constructor\<close>

datatype criterion = CrossEntropyLoss "real list option" int

record ('m, 'n) kpfcnn =
  net_K :: nat
  net_C :: int
  built :: "'m builder"
  head_mlp :: "int \<times> int"
  head_softmax :: "int \<times> int"
  valid_labels :: "int list"
  net_criterion :: criterion
  net_deform_fitting_mode :: string
  net_deform_fitting_power :: real
  net_deform_lr_factor :: real
  net_repulse_extent :: real
  net_2d :: 'n

text \<open>
  The two construction loops of \<^verbatim>\<open>__init__\<close>, from the initial locals to the state
  after the decoder loop.
\<close>

definition build_blocks :: "('e, 'm) decider \<Rightarrow> config \<Rightarrow> 'e py_error + 'm builder" where
  "build_blocks block_decider config =
     (case encoder_loop block_decider config 0 (architecture config) (init_builder config) of
        Inl e \<Rightarrow> Inl e
      | Inr s \<Rightarrow>
         (let start_i = find_start_i 0 (architecture config);
              s1 = s\<lparr> in_dim := in_dim_3d s + in_dim_2d s \<rparr>
          in decoder_loop block_decider config start_i 0
               (drop start_i (architecture config)) s1))"

text \<open>
  \<^verbatim>\<open>KPFCNN_featureAggre.__init__(config, lbl_values, ign_lbls)\<close>. The frozen 2D network
  (\<^verbatim>\<open>UNetResNet34\<close> with its checkpoint read from disk) is the parameter
  \<open>load_net_2d\<close>: the loaded network, or the exception of the load.
\<close>

definition KPFCNN_featureAggre_init ::
  "('e, 'm) decider \<Rightarrow> 'e + 'n \<Rightarrow> config \<Rightarrow> int list \<Rightarrow> int list
     \<Rightarrow> 'e py_error + ('m, 'n) kpfcnn" where
  "KPFCNN_featureAggre_init block_decider load_net_2d config lbl_values ign_lbls =
     (case build_blocks block_decider config of
        Inl e \<Rightarrow> Inl e
      | Inr s \<Rightarrow>
         (case load_net_2d of
            Inl e \<Rightarrow> Inl (External e)
          | Inr n \<Rightarrow>
             Inr \<lparr> net_K = num_kernel_points config,
                   net_C = int (length lbl_values) - int (length ign_lbls),
                   built = s,
                   head_mlp = (out_dim s, first_features_dim config),
                   head_softmax = (first_features_dim config,
                                   int (length lbl_values) - int (length ign_lbls)),
                   valid_labels = sort (filter (\<lambda>c. c \<notin> set ign_lbls) lbl_values),
                   net_criterion =
                     (if length (class_w config) > 0
                      then CrossEntropyLoss (Some (class_w config)) (- 1)
                      else CrossEntropyLoss None (- 1)),
                   net_deform_fitting_mode = deform_fitting_mode config,
                   net_deform_fitting_power = deform_fitting_power config,
                   net_deform_lr_factor = deform_lr_factor config,
                   net_repulse_extent = repulse_extent config,
                   net_2d = n \<rparr>))"

subsection \<open>Regularizer of the deformable kernel points\<close>

text \<open>
  What \<^verbatim>\<open>p2p_fitting_regularizer\<close> reads of a module: \<open>min_d2\<close> has shape
  (points, K), \<open>deformed_KP\<close> has shape (points, K, dim).
\<close>

record kpconv =
  deformable :: bool
  min_d2 :: "real list list"
  KP_extent :: real
  deformed_KP :: "real list list list"

datatype nn_module = KPConv kpconv | OtherModule

text \<open>\<^verbatim>\<open>net.l1(x, torch.zeros_like(x))\<close>: the mean of the absolute values.\<close>

definition l1 :: "real list \<Rightarrow> 'e py_error + real" where
  "l1 xs = (if xs = [] then Inl NonFinite else Inr (sum_list (map abs xs) / real (length xs)))"

definition KP_locs :: "kpconv \<Rightarrow> real list list list" where
  "KP_locs m = map (map (map (\<lambda>x. x / KP_extent m))) (deformed_KP m)"

definition kp_dist :: "real list \<Rightarrow> real list \<Rightarrow> real" where
  "kp_dist p q = sqrt (sum_list (map (\<lambda>(a, b). (a - b)\<^sup>2) (zip p q)))"

text \<open>
  For one input point, \<^verbatim>\<open>other_KP\<close>, \<^verbatim>\<open>KP_locs[:, i:i + 1, :]\<close> and
  \<^verbatim>\<open>distances\<close>. The slice \<open>i:i+1\<close> is empty when \<open>i\<close> is past the row; the
  subtraction then broadcasts to an empty tensor or raises.
\<close>

definition kp_distances :: "real list list \<Rightarrow> nat \<Rightarrow> 'e py_error + real list" where
  "kp_distances row i =
     (let other_KP = take i row @ drop (Suc i) row in
      case take 1 (drop i row) of
        [centre] \<Rightarrow> Inr (map (\<lambda>p. kp_dist p centre) other_KP)
      | _ \<Rightarrow> if length other_KP \<le> 1 then Inr [] else Inl RuntimeError)"

definition clamped_sq :: "real \<Rightarrow> real \<Rightarrow> real" where
  "clamped_sq ext d = (min (d - ext) 0)\<^sup>2"

fun rep_loss :: "real \<Rightarrow> real list list list \<Rightarrow> nat \<Rightarrow> 'e py_error + real list" where
  "rep_loss ext [] i = Inr []"
| "rep_loss ext (row # rows) i =
     (case kp_distances row i of
        Inl e \<Rightarrow> Inl e
      | Inr ds \<Rightarrow>
         (case rep_loss ext rows i of
            Inl e \<Rightarrow> Inl e
          | Inr rs \<Rightarrow> Inr (sum_list (map (clamped_sq ext) ds) # rs)))"

text \<open>\<^verbatim>\<open>for i in range(net.K)\<close>, adding to \<open>repulsive_loss\<close>.\<close>

fun repulsive_loop ::
  "real \<Rightarrow> nat \<Rightarrow> real list list list \<Rightarrow> nat list \<Rightarrow> real \<Rightarrow> 'e py_error + real" where
  "repulsive_loop ext k locs [] repulsive_loss = Inr repulsive_loss"
| "repulsive_loop ext k locs (i # rest) repulsive_loss =
     (case rep_loss ext locs i of
        Inl e \<Rightarrow> Inl e
      | Inr rl \<Rightarrow>
         (case l1 rl of
            Inl e \<Rightarrow> Inl e
          | Inr v \<Rightarrow> repulsive_loop ext k locs rest (repulsive_loss + v / real k)))"

text \<open>
  \<^verbatim>\<open>for m in net.modules()\<close>, on the pair (\<open>fitting_loss\<close>, \<open>repulsive_loss\<close>).
  A zero \<open>KP_extent\<close> makes both normalisations divide by zero.
\<close>

fun regularizer_loop ::
  "('m, 'n) kpfcnn \<Rightarrow> nn_module list \<Rightarrow> real \<times> real \<Rightarrow> 'e py_error + real \<times> real" where
  "regularizer_loop net [] acc = Inr acc"
| "regularizer_loop net (OtherModule # ms) acc = regularizer_loop net ms acc"
| "regularizer_loop net (KPConv m # ms) (fitting_loss, repulsive_loss) =
     (if deformable m then
        (if KP_extent m = 0 then Inl NonFinite
         else case l1 (map (\<lambda>d. d / (KP_extent m)\<^sup>2) (concat (min_d2 m))) of
            Inl e \<Rightarrow> Inl e
          | Inr f \<Rightarrow>
             (case repulsive_loop (net_repulse_extent net) (net_K net) (KP_locs m)
                     [0..<net_K net] repulsive_loss of
                Inl e \<Rightarrow> Inl e
              | Inr rep \<Rightarrow> regularizer_loop net ms (fitting_loss + f, rep)))
      else regularizer_loop net ms (fitting_loss, repulsive_loss))"

definition p2p_fitting_regularizer ::
  "('m, 'n) kpfcnn \<Rightarrow> nn_module list \<Rightarrow> 'e py_error + real" where
  "p2p_fitting_regularizer net modules =
     (case regularizer_loop net modules (0, 0) of
        Inl e \<Rightarrow> Inl e
      | Inr (fitting_loss, repulsive_loss) \<Rightarrow>
          Inr (net_deform_fitting_power net * (2 * fitting_loss + repulsive_loss)))"

subsection \<open>Label remapping, loss and accuracy\<close>

text \<open>
  \<^verbatim>\<open>target = - torch.ones_like(labels)\<close> followed by
  \<^verbatim>\<open>for i, c in enumerate(self.valid_labels): target[labels == c] = i\<close>,
  as written in \<^verbatim>\<open>loss\<close>.
\<close>

definition loss_target :: "int list \<Rightarrow> int list \<Rightarrow> int list" where
  "loss_target valid labels =
     foldl (\<lambda>target (i, c). map (\<lambda>(l, t). if l = c then int i else t) (zip labels target))
       (map (\<lambda>l. - 1) labels) (enumerate 0 valid)"

text \<open>The same two statements as written a second time in \<^verbatim>\<open>accuracy\<close>.\<close>

definition accuracy_target :: "int list \<Rightarrow> int list \<Rightarrow> int list" where
  "accuracy_target valid labels =
     foldl (\<lambda>target (i, c). map (\<lambda>(l, t). if l = c then int i else t) (zip labels target))
       (map (\<lambda>l. - 1) labels) (enumerate 0 valid)"

text \<open>
  \<^verbatim>\<open>loss(outputs, labels)\<close>. The criterion (cross entropy of the tensor library) is
  a parameter, returning its value or the exception it raises; \<open>modules\<close> is
  \<^verbatim>\<open>self.modules()\<close>. The \<^verbatim>\<open>print\<close> is left out.
\<close>

definition loss ::
  "(criterion \<Rightarrow> 'o \<Rightarrow> int list \<Rightarrow> 'e py_error + real) \<Rightarrow> nn_module list
     \<Rightarrow> ('m, 'n) kpfcnn \<Rightarrow> 'o \<Rightarrow> int list \<Rightarrow> 'e py_error + real" where
  "loss cross_entropy modules net outputs labels =
     (let target = loss_target (valid_labels net) labels in
      case cross_entropy (net_criterion net) outputs target of
        Inl e \<Rightarrow> Inl e
      | Inr output_loss \<Rightarrow>
          if net_deform_fitting_mode net = ''point2point'' then
            (case p2p_fitting_regularizer net modules of
               Inl e \<Rightarrow> Inl e
             | Inr reg_loss \<Rightarrow> Inr (output_loss + reg_loss))
          else if net_deform_fitting_mode net = ''point2plane'' then
            Inl (ValueError ''point2plane fitting mode not implemented yet.'')
          else Inl (ValueError (''Unknown fitting mode: '' @ net_deform_fitting_mode net)))"

text \<open>\<^verbatim>\<open>torch.argmax(outputs, dim=1)\<close> on one row: the first index of the largest entry.\<close>

fun argmax_from :: "nat \<Rightarrow> real \<Rightarrow> nat \<Rightarrow> real list \<Rightarrow> nat" where
  "argmax_from best v i [] = best"
| "argmax_from best v i (x # xs) =
     (if v < x then argmax_from i x (Suc i) xs else argmax_from best v (Suc i) xs)"

definition argmax_row :: "real list \<Rightarrow> 'e py_error + int" where
  "argmax_row row =
     (case row of [] \<Rightarrow> Inl IndexError | x # xs \<Rightarrow> Inr (int (argmax_from 0 x 1 xs)))"

fun argmax_rows :: "real list list \<Rightarrow> 'e py_error + int list" where
  "argmax_rows [] = Inr []"
| "argmax_rows (row # rows) =
     (case argmax_row row of
        Inl e \<Rightarrow> Inl e
      | Inr k \<Rightarrow> (case argmax_rows rows of Inl e \<Rightarrow> Inl e | Inr ks \<Rightarrow> Inr (k # ks)))"

text \<open>
  \<^verbatim>\<open>(predicted == target).sum().item()\<close> on 1-D tensors: elementwise when the sizes
  agree, a tensor of size one is broadcast, any other pair of sizes raises.
\<close>

definition count_equal :: "int list \<Rightarrow> int list \<Rightarrow> 'e py_error + nat" where
  "count_equal predicted target =
     (if length predicted = length target
      then Inr (length (filter (\<lambda>(p, t). p = t) (zip predicted target)))
      else if length predicted = 1
      then Inr (length (filter (\<lambda>t. hd predicted = t) target))
      else if length target = 1
      then Inr (length (filter (\<lambda>p. p = hd target) predicted))
      else Inl RuntimeError)"

definition accuracy ::
  "('m, 'n) kpfcnn \<Rightarrow> real list list \<Rightarrow> int list \<Rightarrow> 'e py_error + real" where
  "accuracy net outputs labels =
     (let target = accuracy_target (valid_labels net) labels in
      case argmax_rows outputs of
        Inl e \<Rightarrow> Inl e
      | Inr predicted \<Rightarrow>
          (let total = length target in
           case count_equal predicted target of
             Inl e \<Rightarrow> Inl e
           | Inr correct \<Rightarrow>
               if total = 0 then Inl ZeroDivisionError
               else Inr (real correct / real total)))"

subsection \<open>Counting the transitions of an architecture\<close>

text \<open>The blocks before the first block containing \<open>upsample\<close>: the encoder.\<close>

definition encoder_part :: "string list \<Rightarrow> string list" where
  "encoder_part arch = takeWhile (\<lambda>b. \<not> str_in ''upsample'' b) arch"

text \<open>\<open>N\<close>: the pooling or strided transitions, which the encoder loop performs.\<close>

definition n_subsampling :: "string list \<Rightarrow> nat" where
  "n_subsampling arch = length (filter is_subsampling (encoder_part arch))"

text \<open>\<open>M\<close>: the upsampling transitions, which the decoder loop performs.\<close>

definition n_upsampling :: "string list \<Rightarrow> nat" where
  "n_upsampling arch = length (filter (str_in ''upsample'') arch)"

text \<open>The blocks the encoder loop visits: the encoder and the block it breaks at.\<close>

definition visited :: "string list \<Rightarrow> string list" where
  "visited arch =
     takeWhile (\<lambda>b. \<not> str_in ''upsample'' b) arch
     @ take 1 (dropWhile (\<lambda>b. \<not> str_in ''upsample'' b) arch)"

text \<open>The number of skip taps recorded by the encoder loop.\<close>

definition n_taps :: "string list \<Rightarrow> nat" where
  "n_taps arch = length (filter is_skip_tap (visited arch))"

text \<open>The upsampling blocks that are followed by another block.\<close>

definition n_concats :: "string list \<Rightarrow> nat" where
  "n_concats arch = length (filter (str_in ''upsample'') (butlast arch))"

text \<open>
  The block decider raises on no call whose descriptor is a block of the architecture.
\<close>

definition accepts_architecture :: "('e, 'm) decider \<Rightarrow> config \<Rightarrow> bool" where
  "accepts_architecture dec config =
     (\<forall>b \<in> set (architecture config).
        \<forall>r i_dim o_dim l. \<exists>m. dec b r i_dim o_dim l config = Inr m)"

text \<open>Whether the previous block of the architecture is an upsampling block.\<close>

definition prev_upsample :: "string list \<Rightarrow> nat \<Rightarrow> nat \<Rightarrow> bool" where
  "prev_upsample arch st i = (0 < i \<and> str_in ''upsample'' (arch ! (st + i - 1)))"

text \<open>
  Kernel point \<open>i\<close> of a row has another kernel point of the row closer than \<open>ext\<close>.
\<close>

definition row_close :: "real \<Rightarrow> real list list \<Rightarrow> nat \<Rightarrow> bool" where
  "row_close ext row i =
     (i < length row \<and> (\<exists>j < length row. j \<noteq> i \<and> kp_dist (row ! j) (row ! i) < ext))"

text \<open>
  Some deformable module has, for some input point, a kernel point with index below
  \<open>net.K\<close> and another kernel point closer to it than the repulsion extent.
\<close>

definition some_pair_closer :: "('m, 'n) kpfcnn \<Rightarrow> nn_module list \<Rightarrow> bool" where
  "some_pair_closer net modules =
     (\<exists>m row i. KPConv m \<in> set modules \<and> deformable m \<and> row \<in> set (KP_locs m)
        \<and> i < net_K net \<and> row_close (net_repulse_extent net) row i)"

subsection \<open>Concrete instances used to run the definitions\<close>

text \<open>A block decider that accepts every descriptor and returns its arguments as the layer.\<close>

definition any_block :: "(unit, string \<times> real \<times> int \<times> int \<times> int) decider" where
  "any_block block r i_dim o_dim l config = Inr (block, r, i_dim, o_dim, l)"

text \<open>
  A block decider that knows the listed descriptors and raises on every other one.
\<close>

definition only_blocks ::
  "string list \<Rightarrow> (unit, string \<times> real \<times> int \<times> int \<times> int) decider" where
  "only_blocks known block r i_dim o_dim l config =
     (if block \<in> set known then Inr (block, r, i_dim, o_dim, l) else Inl ())"

definition example_config :: "string list \<Rightarrow> int \<Rightarrow> string \<Rightarrow> config" where
  "example_config arch w0 mode =
     \<lparr> architecture = arch, first_subsampling_dl = 1 / 25, conv_radius = 5 / 2,
       in_features_dim_3d = 4, in_features_dim_2d = 64, first_features_dim = w0,
       num_kernel_points = 15, class_w = [], deform_fitting_mode = mode,
       deform_fitting_power = 1, deform_lr_factor = 1 / 10, repulse_extent = 6 / 5 \<rparr>"

text \<open>A small network record and a deformable module with two kernel points at distance 2.\<close>

definition example_net :: "real \<Rightarrow> (unit, unit) kpfcnn" where
  "example_net ext =
     \<lparr> net_K = 2, net_C = 2, built = init_builder (example_config [] 1 ''point2point''),
       head_mlp = (1, 1), head_softmax = (1, 2), valid_labels = [0, 1],
       net_criterion = CrossEntropyLoss None (- 1), net_deform_fitting_mode = ''point2point'',
       net_deform_fitting_power = 1, net_deform_lr_factor = 1 / 10,
       net_repulse_extent = ext, net_2d = () \<rparr>"

definition example_kpconv :: kpconv where
  "example_kpconv =
     \<lparr> deformable = True, min_d2 = [ [0, 0] ], KP_extent = 1, deformed_KP = [ [ [0], [2] ] ] \<rparr>"

lemmas builder_defs =
  build_blocks_def init_builder_def encoder_step_def record_skip_def is_skip_tap_def
  encoder_update_def is_subsampling_def decoder_step_def decoder_concat_def
  decoder_update_def py_getitem_def

section \<open>Properties of the builder\<close>

subsection \<open>Which errors construction can raise\<close>

lemma encoder_step_errors:
  "encoder_step dec config i block s = Inl e \<Longrightarrow>
     e = ValueError ''Equivariant block but features dimension is not a factor of 3''
     \<or> (\<exists>x. e = External x)"
  by (auto simp: encoder_step_def Let_def split: if_splits sum.splits)

lemma encoder_loop_errors:
  "encoder_loop dec config i blocks s = Inl e \<Longrightarrow>
     e = ValueError ''Equivariant block but features dimension is not a factor of 3''
     \<or> (\<exists>x. e = External x)"
proof (induction blocks arbitrary: i s)
  case Nil
  then show ?case by simp
next
  case (Cons b bs)
  then show ?case
    by (auto split: sum.splits if_splits prod.splits dest: encoder_step_errors)
qed

lemma decoder_step_errors:
  "decoder_step dec config st i block s = Inl e \<Longrightarrow> e = IndexError \<or> (\<exists>x. e = External x)"
  by (auto simp: decoder_step_def decoder_concat_def split: if_splits sum.splits option.splits)

lemma decoder_loop_errors:
  "decoder_loop dec config st i blocks s = Inl e \<Longrightarrow> e = IndexError \<or> (\<exists>x. e = External x)"
proof (induction blocks arbitrary: i s)
  case Nil
  then show ?case by simp
next
  case (Cons b bs)
  then show ?case
    by (auto split: sum.splits dest: decoder_step_errors)
qed

lemma build_blocks_errors:
  "build_blocks dec config = Inl e \<Longrightarrow>
     e = ValueError ''Equivariant block but features dimension is not a factor of 3''
     \<or> e = IndexError \<or> (\<exists>x. e = External x)"
  unfolding build_blocks_def Let_def
  by (auto split: sum.splits dest: encoder_loop_errors decoder_loop_errors)

lemma init_errors:
  "KPFCNN_featureAggre_init dec ld config lbl ign = Inl e \<Longrightarrow>
     e = ValueError ''Equivariant block but features dimension is not a factor of 3''
     \<or> e = IndexError \<or> (\<exists>x. e = External x)"
  by (auto simp: KPFCNN_featureAggre_init_def split: sum.splits dest: build_blocks_errors)

subsection \<open>The encoder loop on a prefix without an upsampling block\<close>

lemma encoder_step_stop:
  "encoder_step dec config i block s = Inr (stop, s') \<Longrightarrow> stop = str_in ''upsample'' block"
  by (auto simp: encoder_step_def Let_def split: if_splits sum.splits)

lemma encoder_loop_append:
  "\<forall>b \<in> set xs. \<not> str_in ''upsample'' b \<Longrightarrow>
   encoder_loop dec config i (xs @ ys) s =
     (case encoder_loop dec config i xs s of
        Inl e \<Rightarrow> Inl e
      | Inr s' \<Rightarrow> encoder_loop dec config (i + length xs) ys s')"
proof (induction xs arbitrary: i s)
  case Nil
  then show ?case by simp
next
  case (Cons b bs)
  show ?case
  proof (cases "encoder_step dec config i b s")
    case (Inl e)
    then show ?thesis by simp
  next
    case (Inr p)
    obtain stop s' where p: "p = (stop, s')" by (cases p)
    with Inr Cons.prems have "\<not> stop"
      using encoder_step_stop[of dec config i b s stop s'] by simp
    with Inr p Cons.IH[of "Suc i" s'] Cons.prems show ?thesis
      by (simp split: sum.splits)
  qed
qed

subsection \<open>The equivariance check\<close>

text \<open>
  Claim C3. A block is reached by the encoder loop when the blocks before it contain no
  \<open>upsample\<close> (no break) and the loop over them returned a state \<open>s\<close>. If that block's
  descriptor contains \<open>equivariant\<close> and the output width of \<open>s\<close> is not divisible
  by 3, the constructor returns the equivariance \<open>ValueError\<close>: no model is built,
  whatever the block decider and the loading of the 2D network would do.
\<close>

theorem equivariant_width_check:
  assumes "k < length (architecture config)"
    and "\<forall>b \<in> set (take k (architecture config)). \<not> str_in ''upsample'' b"
    and "encoder_loop dec config 0 (take k (architecture config)) (init_builder config) = Inr s"
    and "str_in ''equivariant'' (architecture config ! k)"
    and "out_dim s mod 3 \<noteq> 0"
  shows "KPFCNN_featureAggre_init dec ld config lbl ign =
           Inl (ValueError ''Equivariant block but features dimension is not a factor of 3'')"
proof -
  let ?arch = "architecture config"
  have "?arch = take k ?arch @ (?arch ! k) # drop (Suc k) ?arch"
    using assms(1) by (simp add: id_take_nth_drop)
  then have "encoder_loop dec config 0 ?arch (init_builder config) =
      encoder_loop dec config 0 (take k ?arch @ (?arch ! k) # drop (Suc k) ?arch)
        (init_builder config)"
    by simp
  also have "\<dots> =
      encoder_loop dec config (0 + length (take k ?arch)) ((?arch ! k) # drop (Suc k) ?arch) s"
    using encoder_loop_append[OF assms(2), of dec config 0
        "(?arch ! k) # drop (Suc k) ?arch" "init_builder config"] assms(3)
    by simp
  also have "\<dots> =
      Inl (ValueError ''Equivariant block but features dimension is not a factor of 3'')"
    using assms(4,5) by (simp add: encoder_step_def)
  finally show ?thesis
    by (simp add: KPFCNN_featureAggre_init_def build_blocks_def)
qed

theorem equivariant_width_check_witness:
  "KPFCNN_featureAggre_init any_block (Inr ())
      (example_config
         [''simple'', ''resnetb_strided'', ''resnetb_equivariant'', ''upsample'', ''unary'']
         128 ''point2point'')
      [0, 1, 2] [0] =
    Inl (ValueError ''Equivariant block but features dimension is not a factor of 3'')"
proof -
  let ?c = "example_config
     [''simple'', ''resnetb_strided'', ''resnetb_equivariant'', ''upsample'', ''unary'']
     128 ''point2point''"
  have 1: "2 < length (architecture ?c)"
    by (simp add: example_config_def)
  have 2: "\<forall>b \<in> set (take 2 (architecture ?c)). \<not> str_in ''upsample'' b"
    by (simp add: example_config_def)
  obtain s where
    3: "encoder_loop any_block ?c 0 (take 2 (architecture ?c)) (init_builder ?c) = Inr s"
    and o: "out_dim s = 256"
    by (simp add: builder_defs example_config_def any_block_def)
  have 4: "str_in ''equivariant'' (architecture ?c ! 2)"
    by (simp add: example_config_def)
  have 5: "out_dim s mod 3 \<noteq> 0"
    using o by simp
  show ?thesis
    by (rule equivariant_width_check[OF 1 2 3 4 5])
qed

subsection \<open>The worked example of the specification\<close>

text \<open>
  Claim C4, as stated, fails: for the architecture
  \<open>simple, resnetb, resnetb_strided, resnetb, upsample, unary\<close> the constructor records two
  skip taps, at index 2 (the strided block) and at index 4 (the upsample block), not one.
\<close>

theorem example_architecture_two_taps_counterexample:
  "(case KPFCNN_featureAggre_init any_block (Inr ())
           (example_config
              [''simple'', ''resnetb'', ''resnetb_strided'', ''resnetb'', ''upsample'', ''unary'']
              128 ''point2point'')
           [0, 1, 2] [0] of
      Inl e \<Rightarrow> False
    | Inr net \<Rightarrow> encoder_skips (built net) = [2, 4] \<and> length (encoder_skips (built net)) \<noteq> 1)"
  by (simp add: KPFCNN_featureAggre_init_def builder_defs example_config_def any_block_def)

text \<open>
  Claim C4, amended. For that architecture, whenever construction succeeds, the recorded
  skip taps are the indices 2 and 4 with widths \<open>2 * w0\<close> and \<open>4 * w0\<close>; the encoder
  has four blocks, so index 2 is the only tap inside the encoder; there is exactly one
  decoder concat marker, at decoder position 1 (the block right after the upsample
  block); the head's input width is \<open>w0\<close>, and radius and layer index are back at their
  initial values.
\<close>

theorem example_architecture:
  assumes "architecture config =
             [''simple'', ''resnetb'', ''resnetb_strided'', ''resnetb'', ''upsample'', ''unary'']"
    and "KPFCNN_featureAggre_init dec ld config lbl ign = Inr net"
  shows "encoder_skips (built net) = [2, 4]
       \<and> encoder_skip_dims (built net) =
           [2 * first_features_dim config, 4 * first_features_dim config]
       \<and> length (encoder_blocks_3d (built net)) = 4
       \<and> length (encoder_blocks_2d (built net)) = 4
       \<and> filter (\<lambda>i. i < length (encoder_blocks_3d (built net))) (encoder_skips (built net)) = [2]
       \<and> decoder_concats (built net) = [1]
       \<and> length (decoder_blocks (built net)) = 2
       \<and> head_mlp net = (first_features_dim config, first_features_dim config)
       \<and> radius (built net) = first_subsampling_dl config * conv_radius config
       \<and> layer (built net) = 0"
proof -
  from assms(2) obtain s where s: "build_blocks dec config = Inr s" and n: "built net = s"
    and h: "head_mlp net = (out_dim s, first_features_dim config)"
    by (auto simp: KPFCNN_featureAggre_init_def split: sum.splits)
  from s assms(1) have
    "encoder_skips s = [2, 4]
       \<and> encoder_skip_dims s = [2 * first_features_dim config, 4 * first_features_dim config]
       \<and> length (encoder_blocks_3d s) = 4
       \<and> length (encoder_blocks_2d s) = 4
       \<and> decoder_concats s = [1]
       \<and> length (decoder_blocks s) = 2
       \<and> out_dim s = first_features_dim config
       \<and> radius s = first_subsampling_dl config * conv_radius config
       \<and> layer s = 0"
    by (auto simp: builder_defs Let_def split: sum.splits)
  with n h show ?thesis by simp
qed

theorem example_architecture_witness:
  "(case KPFCNN_featureAggre_init any_block (Inr ())
           (example_config
              [''simple'', ''resnetb'', ''resnetb_strided'', ''resnetb'', ''upsample'', ''unary'']
              64 ''point2point'')
           [0, 1, 2] [0] of
      Inl e \<Rightarrow> False
    | Inr net \<Rightarrow> encoder_skip_dims (built net) = [128, 256]
                 \<and> decoder_concats (built net) = [1] \<and> head_mlp net = (64, 64))"
proof -
  let ?c = "example_config
     [''simple'', ''resnetb'', ''resnetb_strided'', ''resnetb'', ''upsample'', ''unary'']
     64 ''point2point''"
  have a: "architecture ?c =
      [''simple'', ''resnetb'', ''resnetb_strided'', ''resnetb'', ''upsample'', ''unary'']"
    by (simp add: example_config_def)
  obtain net where n: "KPFCNN_featureAggre_init any_block (Inr ()) ?c [0, 1, 2] [0] = Inr net"
    by (simp add: KPFCNN_featureAggre_init_def builder_defs example_config_def any_block_def)
  have w: "first_features_dim ?c = 64"
    by (simp add: example_config_def)
  show ?thesis
    using example_architecture[OF a n] by (simp add: n w)
qed

subsection \<open>Radius, output width and layer index\<close>

lemma record_skip_dims [simp]:
  "layer (record_skip i b s) = layer s"
  "radius (record_skip i b s) = radius s"
  "out_dim (record_skip i b s) = out_dim s"
  "in_dim_3d (record_skip i b s) = in_dim_3d s"
  "in_dim_2d (record_skip i b s) = in_dim_2d s"
  by (simp_all add: record_skip_def)

lemma encoder_step_transition:
  assumes "encoder_step dec config i b s = Inr (False, s')"
  shows "layer s' = layer s + (if is_subsampling b then 1 else 0)"
    and "radius s' = radius s * (if is_subsampling b then 2 else 1)"
    and "out_dim s' = out_dim s * (if is_subsampling b then 2 else 1)"
  using assms
  by (auto simp: encoder_step_def encoder_update_def Let_def split: if_splits sum.splits)

lemma encoder_step_break:
  assumes "encoder_step dec config i b s = Inr (True, s')"
  shows "layer s' = layer s" and "radius s' = radius s" and "out_dim s' = out_dim s"
  using assms
  by (auto simp: encoder_step_def Let_def split: if_splits sum.splits)

lemma encoder_loop_scaling:
  "encoder_loop dec config i blocks s = Inr s' \<Longrightarrow>
     layer s' = layer s + int (n_subsampling blocks)
   \<and> radius s' = radius s * 2 ^ n_subsampling blocks
   \<and> out_dim s' = out_dim s * 2 ^ n_subsampling blocks"
proof (induction blocks arbitrary: i s)
  case Nil
  then show ?case by (simp add: n_subsampling_def encoder_part_def)
next
  case (Cons b bs)
  from Cons.prems obtain stop s1 where st: "encoder_step dec config i b s = Inr (stop, s1)"
    by (auto split: sum.splits)
  have up: "stop = str_in ''upsample'' b"
    using st by (rule encoder_step_stop)
  show ?case
  proof (cases stop)
    case True
    with st Cons.prems have "s' = s1" by simp
    with True st up encoder_step_break[of dec config i b s s1] show ?thesis
      by (simp add: n_subsampling_def encoder_part_def)
  next
    case False
    with st Cons.prems have "encoder_loop dec config (Suc i) bs s1 = Inr s'" by simp
    from Cons.IH[OF this] False st up encoder_step_transition[of dec config i b s s1]
    show ?thesis
      by (simp add: n_subsampling_def encoder_part_def algebra_simps)
  qed
qed

lemma decoder_step_transition:
  assumes "decoder_step dec config st i b s = Inr s'"
  shows "layer s' = layer s - (if str_in ''upsample'' b then 1 else 0)"
    and "radius s' = radius s / (if str_in ''upsample'' b then 2 else 1)"
    and "out_dim s' = out_dim s div (if str_in ''upsample'' b then 2 else 1)"
  using assms
  by (auto simp: decoder_step_def decoder_concat_def decoder_update_def Let_def
      split: if_splits sum.splits option.splits)

lemma decoder_loop_scaling:
  "decoder_loop dec config st i blocks s = Inr s' \<Longrightarrow>
     layer s' = layer s - int (n_upsampling blocks)
   \<and> radius s' = radius s / 2 ^ n_upsampling blocks
   \<and> out_dim s' = out_dim s div 2 ^ n_upsampling blocks"
proof (induction blocks arbitrary: i s)
  case Nil
  then show ?case by (simp add: n_upsampling_def)
next
  case (Cons b bs)
  from Cons.prems obtain s1 where st: "decoder_step dec config st i b s = Inr s1"
    and rest: "decoder_loop dec config st (Suc i) bs s1 = Inr s'"
    by (auto split: sum.splits)
  have d: "out_dim s div 2 div 2 ^ n_upsampling bs = out_dim s div (2 * 2 ^ n_upsampling bs)"
    by (simp add: zdiv_zmult2_eq)
  from Cons.IH[OF rest] decoder_step_transition[OF st] d show ?case
    by (simp add: n_upsampling_def)
qed

lemma find_start_i_takeWhile:
  "\<exists>b \<in> set arch. str_in ''upsample'' b \<Longrightarrow>
   find_start_i i arch = i + length (takeWhile (\<lambda>b. \<not> str_in ''upsample'' b) arch)"
proof (induction arch arbitrary: i)
  case Nil
  then show ?case by simp
next
  case (Cons b bs)
  show ?case
  proof (cases "str_in ''upsample'' b")
    case True
    then show ?thesis by simp
  next
    case False
    with Cons.prems have "\<exists>b \<in> set bs. str_in ''upsample'' b" by simp
    from Cons.IH[OF this, of "Suc i"] False show ?thesis by simp
  qed
qed

lemma find_start_i_none:
  "\<forall>b \<in> set arch. \<not> str_in ''upsample'' b \<Longrightarrow> find_start_i i arch = 0"
  by (induction arch arbitrary: i) auto

lemma drop_start_i:
  "drop (find_start_i 0 arch) arch =
     (if \<exists>b \<in> set arch. str_in ''upsample'' b
      then dropWhile (\<lambda>b. \<not> str_in ''upsample'' b) arch else arch)"
proof (cases "\<exists>b \<in> set arch. str_in ''upsample'' b")
  case True
  then show ?thesis
    using find_start_i_takeWhile[of arch 0] by (simp add: dropWhile_eq_drop)
next
  case False
  then show ?thesis using find_start_i_none[of arch 0] by simp
qed

lemma n_upsampling_drop_start_i:
  "n_upsampling (drop (find_start_i 0 arch) arch) = n_upsampling arch"
proof -
  let ?P = "\<lambda>b. \<not> str_in ''upsample'' b"
  have "filter (str_in ''upsample'') arch =
      filter (str_in ''upsample'') (takeWhile ?P arch @ dropWhile ?P arch)"
    by simp
  also have "\<dots> = filter (str_in ''upsample'') (dropWhile ?P arch)"
    unfolding filter_append
    by (simp add: filter_empty_conv) (metis set_takeWhileD)
  finally show ?thesis
    by (simp add: n_upsampling_def drop_start_i)
qed

lemma build_blocks_scaling:
  assumes "build_blocks dec config = Inr s"
  shows "layer s = int (n_subsampling (architecture config)) - int (n_upsampling (architecture config))"
    and "radius s = first_subsampling_dl config * conv_radius config
            * 2 ^ n_subsampling (architecture config) / 2 ^ n_upsampling (architecture config)"
    and "out_dim s = first_features_dim config * 2 ^ n_subsampling (architecture config)
            div 2 ^ n_upsampling (architecture config)"
proof -
  let ?arch = "architecture config"
  from assms obtain s1 where
    e: "encoder_loop dec config 0 ?arch (init_builder config) = Inr s1" and
    d: "decoder_loop dec config (find_start_i 0 ?arch) 0 (drop (find_start_i 0 ?arch) ?arch)
          (s1\<lparr>in_dim := in_dim_3d s1 + in_dim_2d s1\<rparr>) = Inr s"
    by (auto simp: build_blocks_def Let_def split: sum.splits)
  from encoder_loop_scaling[OF e] decoder_loop_scaling[OF d]
  show "layer s = int (n_subsampling ?arch) - int (n_upsampling ?arch)"
    and "radius s = first_subsampling_dl config * conv_radius config
            * 2 ^ n_subsampling ?arch / 2 ^ n_upsampling ?arch"
    and "out_dim s = first_features_dim config * 2 ^ n_subsampling ?arch
            div 2 ^ n_upsampling ?arch"
    by (simp_all add: n_upsampling_drop_start_i init_builder_def)
qed

text \<open>
  Claim C2, as stated, fails for the output width: the decoder halves with \<open>//\<close>, so
  with \<open>N = 0\<close>, \<open>M = 1\<close> and the initial width 5 the final width is 2, not
  \<open>5 * 2^(-1)\<close>.
\<close>

theorem width_floor_counterexample:
  "(case KPFCNN_featureAggre_init any_block (Inr ())
           (example_config [''simple'', ''upsample'', ''unary''] 5 ''point2point'')
           [0, 1, 2] [0] of
      Inl e \<Rightarrow> False
    | Inr net \<Rightarrow>
        out_dim (built net) = 2
        \<and> real_of_int (out_dim (built net)) \<noteq>
            real_of_int 5 * 2 powi (int (n_subsampling [''simple'', ''upsample'', ''unary''])
                                     - int (n_upsampling [''simple'', ''upsample'', ''unary''])))"
  by (simp add: KPFCNN_featureAggre_init_def builder_defs example_config_def any_block_def
      n_subsampling_def n_upsampling_def encoder_part_def power_int_def)

text \<open>
  Claim C2, amended. After a successful construction with \<open>N\<close> pooling or strided
  transitions and \<open>M\<close> upsampling transitions, the radius is the initial radius times
  \<open>2^(N-M)\<close>, the layer index is \<open>N - M\<close> (one step up per pooling or strided
  transition, one step down per upsampling transition), and the output width is the
  initial width times \<open>2^N\<close>, divided by \<open>2^M\<close> rounding down; that is the initial
  width times \<open>2^(N-M)\<close> whenever \<open>M \<le> N\<close>.
\<close>

theorem radius_and_width_scaling:
  assumes "KPFCNN_featureAggre_init dec ld config lbl ign = Inr net"
  shows "radius (built net) =
           first_subsampling_dl config * conv_radius config
             * 2 powi (int (n_subsampling (architecture config))
                       - int (n_upsampling (architecture config)))
       \<and> layer (built net) =
           int (n_subsampling (architecture config)) - int (n_upsampling (architecture config))
       \<and> out_dim (built net) =
           first_features_dim config * 2 ^ n_subsampling (architecture config)
             div 2 ^ n_upsampling (architecture config)
       \<and> (n_upsampling (architecture config) \<le> n_subsampling (architecture config) \<longrightarrow>
           out_dim (built net) =
             first_features_dim config
               * 2 ^ (n_subsampling (architecture config) - n_upsampling (architecture config)))"
proof -
  let ?N = "n_subsampling (architecture config)"
  let ?M = "n_upsampling (architecture config)"
  from assms obtain s where s: "build_blocks dec config = Inr s" and b: "built net = s"
    by (auto simp: KPFCNN_featureAggre_init_def split: sum.splits)
  have p: "(2::real) powi (int ?N - int ?M) = 2 ^ ?N / 2 ^ ?M"
    by (simp add: power_int_diff)
  have q: "?M \<le> ?N \<Longrightarrow>
      first_features_dim config * 2 ^ ?N div 2 ^ ?M = first_features_dim config * 2 ^ (?N - ?M)"
  proof -
    assume le: "?M \<le> ?N"
    then have "(2::int) ^ ?N = 2 ^ (?N - ?M) * 2 ^ ?M"
      by (simp add: power_add[symmetric])
    then have "first_features_dim config * 2 ^ ?N div 2 ^ ?M =
        first_features_dim config * 2 ^ (?N - ?M) * 2 ^ ?M div 2 ^ ?M"
      by (simp only: mult.assoc)
    also have "\<dots> = first_features_dim config * 2 ^ (?N - ?M)"
      by (rule nonzero_mult_div_cancel_right) simp
    finally show ?thesis .
  qed
  from build_blocks_scaling[OF s] b p q show ?thesis by simp
qed

theorem radius_and_width_scaling_witness:
  "(case KPFCNN_featureAggre_init any_block (Inr ())
           (example_config
              [''simple'', ''resnetb_strided'', ''resnetb'', ''resnetb_strided'', ''resnetb'',
               ''upsample'', ''unary'', ''upsample'', ''unary''] 128 ''point2point'')
           [0, 1, 2] [0] of
      Inl e \<Rightarrow> False
    | Inr net \<Rightarrow>
        radius (built net) = 1 / 10 \<and> layer (built net) = 0 \<and> out_dim (built net) = 128)"
proof -
  let ?a = "[''simple'', ''resnetb_strided'', ''resnetb'', ''resnetb_strided'', ''resnetb'',
               ''upsample'', ''unary'', ''upsample'', ''unary'']"
  let ?c = "example_config ?a 128 ''point2point''"
  obtain net :: "(string \<times> real \<times> int \<times> int \<times> int, unit) kpfcnn"
    where n: "KPFCNN_featureAggre_init any_block (Inr ()) ?c [0, 1, 2] [0] = Inr net"
    by (simp add: KPFCNN_featureAggre_init_def builder_defs example_config_def any_block_def)
  have N: "n_subsampling ?a = 2"
    by (simp add: n_subsampling_def encoder_part_def is_subsampling_def)
  have M: "n_upsampling ?a = 2"
    by (simp add: n_upsampling_def)
  have c: "architecture ?c = ?a" "first_features_dim ?c = 128"
    "first_subsampling_dl ?c = 1 / 25" "conv_radius ?c = 5 / 2"
    by (simp_all add: example_config_def)
  show ?thesis
    using radius_and_width_scaling[OF n] unfolding c N M by (simp add: n)
qed

subsection \<open>When construction succeeds\<close>

lemma visited_Cons:
  "visited (b # bs) = (if str_in ''upsample'' b then [b] else b # visited bs)"
  by (simp add: visited_def)

lemma upsample_is_tap: "str_in ''upsample'' b \<Longrightarrow> is_skip_tap b"
  by (simp add: is_skip_tap_def)

lemma subsampling_is_tap: "is_subsampling b \<Longrightarrow> is_skip_tap b"
  by (auto simp: is_skip_tap_def is_subsampling_def)

lemma encoder_step_taps:
  assumes "encoder_step dec config i b s = Inr (stop, s')"
  shows "length (encoder_skip_dims s') =
           length (encoder_skip_dims s) + (if is_skip_tap b then 1 else 0)"
  using assms
  by (auto simp: encoder_step_def encoder_update_def record_skip_def Let_def
      split: if_splits sum.splits)

lemma encoder_loop_taps:
  "encoder_loop dec config i blocks s = Inr s' \<Longrightarrow>
   length (encoder_skip_dims s') = length (encoder_skip_dims s) + n_taps blocks"
proof (induction blocks arbitrary: i s)
  case Nil
  then show ?case by (simp add: n_taps_def visited_def)
next
  case (Cons b bs)
  from Cons.prems obtain stop s1 where st: "encoder_step dec config i b s = Inr (stop, s1)"
    by (auto split: sum.splits)
  have up: "stop = str_in ''upsample'' b"
    using st by (rule encoder_step_stop)
  show ?case
  proof (cases stop)
    case True
    with st Cons.prems have "s' = s1" by simp
    with True up encoder_step_taps[OF st] show ?thesis
      by (simp add: n_taps_def visited_Cons)
  next
    case False
    with st Cons.prems have "encoder_loop dec config (Suc i) bs s1 = Inr s'" by simp
    from Cons.IH[OF this] False up encoder_step_taps[OF st] show ?thesis
      by (simp add: n_taps_def visited_Cons)
  qed
qed

lemma filter_length_mono:
  "(\<And>x. P x \<Longrightarrow> Q x) \<Longrightarrow> length (filter P xs) \<le> length (filter Q xs)"
  by (induction xs) auto

lemma taps_exceed_subsamplings:
  assumes "\<exists>b \<in> set arch. str_in ''upsample'' b"
  shows "n_subsampling arch < n_taps arch"
proof -
  let ?P = "\<lambda>b. \<not> str_in ''upsample'' b"
  from assms have ne: "dropWhile ?P arch \<noteq> []" by (simp add: dropWhile_eq_Nil_conv)
  then obtain u rest where d: "dropWhile ?P arch = u # rest" by (cases "dropWhile ?P arch") auto
  then have "str_in ''upsample'' u" using hd_dropWhile[OF ne] by simp
  then have "is_skip_tap u" by (rule upsample_is_tap)
  with d have "n_taps arch = length (filter is_skip_tap (takeWhile ?P arch)) + 1"
    by (simp add: n_taps_def visited_def)
  moreover have "n_subsampling arch \<le> length (filter is_skip_tap (takeWhile ?P arch))"
    unfolding n_subsampling_def encoder_part_def
    by (rule filter_length_mono) (rule subsampling_is_tap)
  ultimately show ?thesis by simp
qed

lemma n_concats_drop_start_i:
  "length (filter (str_in ''upsample'') (butlast (drop (find_start_i 0 arch) arch))) = n_concats arch"
proof (cases "\<exists>b \<in> set arch. str_in ''upsample'' b")
  case False
  then show ?thesis by (simp add: drop_start_i n_concats_def)
next
  case True
  let ?P = "\<lambda>b. \<not> str_in ''upsample'' b"
  from True have ne: "dropWhile ?P arch \<noteq> []" by (simp add: dropWhile_eq_Nil_conv)
  have "butlast (takeWhile ?P arch @ dropWhile ?P arch) =
      takeWhile ?P arch @ butlast (dropWhile ?P arch)"
    using ne by (simp only: butlast_append if_False)
  then have "butlast arch = takeWhile ?P arch @ butlast (dropWhile ?P arch)"
    by (simp only: takeWhile_dropWhile_id)
  then have "filter (str_in ''upsample'') (butlast arch) =
      filter (str_in ''upsample'') (takeWhile ?P arch)
      @ filter (str_in ''upsample'') (butlast (dropWhile ?P arch))"
    by simp
  moreover have "filter (str_in ''upsample'') (takeWhile ?P arch) = []"
    by (simp add: filter_empty_conv) (metis set_takeWhileD)
  ultimately show ?thesis using True by (simp add: drop_start_i n_concats_def)
qed

lemma py_getitem_nat:
  "k < length xs \<Longrightarrow> py_getitem xs (int k) = Some (xs ! k)"
  by (simp add: py_getitem_def)

lemma py_getitem_Some_iff:
  "l < int (length xs) \<Longrightarrow> (\<exists>d. py_getitem xs l = Some d) \<longleftrightarrow> - int (length xs) \<le> l"
  by (auto simp: py_getitem_def)

lemma decoder_step_keeps:
  assumes "decoder_step dec config st i b s = Inr s'"
  shows "encoder_skip_dims s' = encoder_skip_dims s" and "encoder_skips s' = encoder_skips s"
  using assms
  by (auto simp: decoder_step_def decoder_concat_def decoder_update_def Let_def
      split: if_splits sum.splits option.splits)

lemma n_concats_Cons:
  "length (filter (str_in ''upsample'') (butlast (b # bs))) =
     (if bs = [] then 0
      else (if str_in ''upsample'' b then 1 else 0)
           + length (filter (str_in ''upsample'') (butlast bs)))"
  by simp

lemma filter_butlast_le: "length (filter P (butlast xs)) \<le> length (filter P xs)"
  by (induction xs) auto

lemma encoder_step_no_external:
  assumes "\<forall>r i_dim o_dim l. \<exists>m. dec b r i_dim o_dim l config = Inr m"
  shows "encoder_step dec config i b s \<noteq> Inl (External x)"
proof -
  let ?s1 = "record_skip i b s"
  from assms obtain b3 where
    3: "dec b (radius ?s1) (in_dim_3d ?s1) (out_dim ?s1) (layer ?s1) config = Inr b3"
    by blast
  from assms obtain b2 where
    2: "dec b (radius ?s1) (in_dim_2d ?s1) (out_dim ?s1) (layer ?s1) config = Inr b2"
    by blast
  from 3 2 show ?thesis
    by (auto simp: encoder_step_def Let_def)
qed

lemma encoder_loop_no_external:
  "\<forall>b \<in> set blocks. \<forall>r i_dim o_dim l. \<exists>m. dec b r i_dim o_dim l config = Inr m \<Longrightarrow>
   encoder_loop dec config i blocks s \<noteq> Inl (External x)"
proof (induction blocks arbitrary: i s)
  case Nil
  then show ?case by simp
next
  case (Cons b bs)
  from Cons.prems have hd: "\<forall>r i_dim o_dim l. \<exists>m. dec b r i_dim o_dim l config = Inr m"
    and tl: "\<forall>b \<in> set bs. \<forall>r i_dim o_dim l. \<exists>m. dec b r i_dim o_dim l config = Inr m"
    by simp_all
  show ?case
  proof (cases "encoder_step dec config i b s")
    case (Inl e)
    moreover have "encoder_step dec config i b s \<noteq> Inl (External x)"
      using hd by (rule encoder_step_no_external)
    ultimately show ?thesis by auto
  next
    case (Inr p)
    obtain stop s1 where "p = (stop, s1)" by (cases p)
    with Inr Cons.IH[OF tl, of "Suc i" s1] show ?thesis by simp
  qed
qed

lemma encoder_step_value_error:
  "encoder_step dec config i b s = Inl (ValueError msg) \<Longrightarrow> str_in ''equivariant'' b"
  by (auto simp: encoder_step_def Let_def split: if_splits sum.splits)

lemma encoder_loop_value_error:
  "encoder_loop dec config i blocks s = Inl (ValueError msg) \<Longrightarrow>
   \<exists>b \<in> set blocks. str_in ''equivariant'' b"
proof (induction blocks arbitrary: i s)
  case Nil
  then show ?case by simp
next
  case (Cons b bs)
  show ?case
  proof (cases "encoder_step dec config i b s")
    case (Inl e)
    with Cons.prems have "encoder_step dec config i b s = Inl (ValueError msg)" by simp
    then have "str_in ''equivariant'' b" by (rule encoder_step_value_error)
    then show ?thesis by simp
  next
    case (Inr p)
    obtain stop s1 where p: "p = (stop, s1)" by (cases p)
    with Inr Cons.prems have "encoder_loop dec config (Suc i) bs s1 = Inl (ValueError msg)"
      by (simp split: if_splits)
    from Cons.IH[OF this] show ?thesis by simp
  qed
qed

lemma decoder_step_no_external:
  fixes dec :: "('e, 'm) decider"
  assumes "\<forall>r i_dim o_dim l. \<exists>m. dec b r i_dim o_dim l config = Inr m"
  shows "decoder_step dec config st i b s \<noteq> Inl (External x)"
proof (cases "decoder_concat (architecture config) st i s :: 'e py_error + 'm builder")
  case (Inl e)
  then have "e = IndexError"
    by (auto simp: decoder_concat_def split: if_splits option.splits)
  with Inl show ?thesis by (simp add: decoder_step_def)
next
  case (Inr s1)
  from assms obtain m where
    "dec b (radius s1) (in_dim s1) (out_dim s1) (layer s1) config = Inr m" by blast
  with Inr show ?thesis by (simp add: decoder_step_def)
qed

lemma decoder_loop_no_external:
  "\<forall>b \<in> set blocks. \<forall>r i_dim o_dim l. \<exists>m. dec b r i_dim o_dim l config = Inr m \<Longrightarrow>
   decoder_loop dec config st i blocks s \<noteq> Inl (External x)"
proof (induction blocks arbitrary: i s)
  case Nil
  then show ?case by simp
next
  case (Cons b bs)
  from Cons.prems have hd: "\<forall>r i_dim o_dim l. \<exists>m. dec b r i_dim o_dim l config = Inr m"
    and tl: "\<forall>b \<in> set bs. \<forall>r i_dim o_dim l. \<exists>m. dec b r i_dim o_dim l config = Inr m"
    by simp_all
  show ?case
  proof (cases "decoder_step dec config st i b s")
    case (Inl e)
    moreover have "decoder_step dec config st i b s \<noteq> Inl (External x)"
      using hd by (rule decoder_step_no_external)
    ultimately show ?thesis by auto
  next
    case (Inr s1)
    with Cons.IH[OF tl, of "Suc i" s1] show ?thesis by simp
  qed
qed

lemma decoder_step_lookup:
  fixes dec :: "('e, 'm) decider"
  assumes "st + i < length (architecture config)"
    and "(\<exists>b \<in> set (architecture config). str_in ''upsample'' b) \<longrightarrow>
           layer s < int (length (encoder_skip_dims s))"
  shows "decoder_step dec config st i b s = Inr s' \<Longrightarrow>
           prev_upsample (architecture config) st i \<longrightarrow>
             - int (length (encoder_skip_dims s)) \<le> layer s"
    and "decoder_step dec config st i b s = Inl IndexError \<Longrightarrow>
           prev_upsample (architecture config) st i
           \<and> \<not> - int (length (encoder_skip_dims s)) \<le> layer s"
proof -
  let ?arch = "architecture config"
  let ?T = "int (length (encoder_skip_dims s))"
  have no_idx: "\<And>s1. (case dec b (radius s1) (in_dim s1) (out_dim s1) (layer s1) config of
            Inl e \<Rightarrow> Inl (External e)
          | Inr m \<Rightarrow> Inr (decoder_update b m s1)) \<noteq> (Inl IndexError :: 'e py_error + 'm builder)"
    by (simp split: sum.splits)
  have look: "prev_upsample ?arch st i \<Longrightarrow>
      (\<exists>d. py_getitem (encoder_skip_dims s) (layer s) = Some d) \<longleftrightarrow> - ?T \<le> layer s"
  proof -
    assume p: "prev_upsample ?arch st i"
    then have "st + i - 1 < length ?arch" using assms(1) by simp
    then have "?arch ! (st + i - 1) \<in> set ?arch" by (rule nth_mem)
    with p assms(2) have "layer s < ?T" by (auto simp: prev_upsample_def)
    then show ?thesis by (rule py_getitem_Some_iff)
  qed
  have cc: "decoder_concat ?arch st i s =
      (if prev_upsample ?arch st i then
         (case py_getitem (encoder_skip_dims s) (layer s) of
            None \<Rightarrow> Inl IndexError
          | Some d \<Rightarrow> Inr (s\<lparr>in_dim := in_dim s + d,
                             decoder_concats := decoder_concats s @ [i]\<rparr>))
       else (Inr s :: 'e py_error + 'm builder))"
  proof (cases "0 < i")
    case False
    then show ?thesis by (simp add: decoder_concat_def prev_upsample_def)
  next
    case True
    then have idx: "int st + int i - 1 = int (st + i - 1)" by simp
    have lt: "st + i - 1 < length ?arch" using assms(1) by simp
    have "py_getitem ?arch (int st + int i - 1) = Some (?arch ! (st + i - 1))"
      unfolding idx using lt by (rule py_getitem_nat)
    with True show ?thesis by (simp add: decoder_concat_def prev_upsample_def)
  qed
  show "decoder_step dec config st i b s = Inr s' \<Longrightarrow>
      prev_upsample ?arch st i \<longrightarrow> - ?T \<le> layer s"
    using look by (auto simp: decoder_step_def cc split: if_splits option.splits sum.splits)
  show "decoder_step dec config st i b s = Inl IndexError \<Longrightarrow>
      prev_upsample ?arch st i \<and> \<not> - ?T \<le> layer s"
    using look no_idx
    by (auto simp: decoder_step_def cc split: if_splits option.splits sum.splits)
qed

lemma decoder_loop_lookups:
  "drop (st + i) (architecture config) = blocks \<Longrightarrow>
   ((\<exists>b \<in> set (architecture config). str_in ''upsample'' b) \<longrightarrow>
      layer s < int (length (encoder_skip_dims s))) \<Longrightarrow>
   ((\<exists>s'. decoder_loop dec config st i blocks s = Inr s') \<longrightarrow>
      ((prev_upsample (architecture config) st i \<and> blocks \<noteq> [])
         \<or> 0 < length (filter (str_in ''upsample'') (butlast blocks))
       \<longrightarrow> - int (length (encoder_skip_dims s))
             \<le> layer s - int (length (filter (str_in ''upsample'') (butlast blocks)))))
   \<and> (decoder_loop dec config st i blocks s = Inl IndexError \<longrightarrow>
      \<not> ((prev_upsample (architecture config) st i \<and> blocks \<noteq> [])
         \<or> 0 < length (filter (str_in ''upsample'') (butlast blocks))
       \<longrightarrow> - int (length (encoder_skip_dims s))
             \<le> layer s - int (length (filter (str_in ''upsample'') (butlast blocks)))))"
proof (induction blocks arbitrary: i s)
  case Nil
  then show ?case by simp
next
  case (Cons b bs)
  let ?arch = "architecture config"
  let ?T = "int (length (encoder_skip_dims s))"
  from Cons.prems(1) have lt: "st + i < length ?arch"
    by (metis drop_eq_Nil list.distinct(1) not_le)
  from Cons.prems(1) have nth: "?arch ! (st + i) = b"
    by (metis nth_via_drop)
  from Cons.prems(1) have dr: "drop (st + Suc i) ?arch = bs"
    by (metis add_Suc_right drop_Suc tl_drop list.sel(3))
  have pu': "prev_upsample ?arch st (Suc i) = str_in ''upsample'' b"
    using nth by (simp add: prev_upsample_def)
  note step = decoder_step_lookup[OF lt Cons.prems(2), of dec b]
  show ?case
  proof (cases "decoder_step dec config st i b s")
    case (Inl e)
    show ?thesis
    proof (cases "e = IndexError")
      case True
      with Inl step(2) have "prev_upsample ?arch st i" and "\<not> - ?T \<le> layer s"
        by auto
      with Inl True show ?thesis by auto
    next
      case False
      with Inl show ?thesis by auto
    qed
  next
    case (Inr s1)
    then have ok: "prev_upsample ?arch st i \<longrightarrow> - ?T \<le> layer s"
      by (rule step(1))
    have k: "encoder_skip_dims s1 = encoder_skip_dims s"
      using Inr by (rule decoder_step_keeps)
    have l: "layer s1 = layer s - (if str_in ''upsample'' b then 1 else 0)"
      using Inr by (rule decoder_step_transition)
    have inv: "(\<exists>b \<in> set ?arch. str_in ''upsample'' b) \<longrightarrow>
        layer s1 < int (length (encoder_skip_dims s1))"
      using Cons.prems(2) k l by auto
    note IH = Cons.IH[OF dr inv]
    have loop: "decoder_loop dec config st i (b # bs) s = decoder_loop dec config st (Suc i) bs s1"
      using Inr by simp
    show ?thesis
      unfolding loop
      using IH ok
      by (simp only: pu' k l n_concats_Cons) (auto split: if_splits)
  qed
qed

lemma build_blocks_lookups:
  shows "build_blocks dec config = Inr s \<Longrightarrow> n_concats (architecture config)
      \<le> n_subsampling (architecture config) + n_taps (architecture config)"
    and "build_blocks dec config = Inl IndexError \<Longrightarrow> \<not> n_concats (architecture config)
      \<le> n_subsampling (architecture config) + n_taps (architecture config)"
proof -
  let ?arch = "architecture config"
  let ?st = "find_start_i 0 ?arch"
  have "(build_blocks dec config = Inr s \<longrightarrow> n_concats ?arch \<le> n_subsampling ?arch + n_taps ?arch)
      \<and> (build_blocks dec config = Inl IndexError \<longrightarrow> \<not> n_concats ?arch \<le> n_subsampling ?arch + n_taps ?arch)"
  proof (cases "encoder_loop dec config 0 ?arch (init_builder config)")
    case (Inl e)
    then have "build_blocks dec config = Inl e" by (simp add: build_blocks_def)
    moreover from Inl have "e \<noteq> IndexError"
      using encoder_loop_errors[of dec config 0 ?arch "init_builder config" e] by auto
    ultimately show ?thesis by simp
  next
    case (Inr s1)
    let ?s = "s1\<lparr>in_dim := in_dim_3d s1 + in_dim_2d s1\<rparr>"
    have bb: "build_blocks dec config = decoder_loop dec config ?st 0 (drop ?st ?arch) ?s"
      using Inr by (simp add: build_blocks_def Let_def)
    have l: "layer ?s = int (n_subsampling ?arch)"
      using encoder_loop_scaling[OF Inr] by (simp add: init_builder_def)
    have t: "length (encoder_skip_dims ?s) = n_taps ?arch"
      using encoder_loop_taps[OF Inr] by (simp add: init_builder_def)
    have inv: "(\<exists>b \<in> set ?arch. str_in ''upsample'' b) \<longrightarrow>
        layer ?s < int (length (encoder_skip_dims ?s))"
      unfolding l t using taps_exceed_subsamplings[of ?arch] by auto
    have d: "drop (?st + 0) ?arch = drop ?st ?arch" by simp
    note main = decoder_loop_lookups[OF d inv, of dec]
    have np: "\<not> prev_upsample ?arch ?st 0" by (simp add: prev_upsample_def)
    from main np show ?thesis
      unfolding bb l t n_concats_drop_start_i by auto
  qed
  then show "build_blocks dec config = Inr s \<Longrightarrow> n_concats ?arch \<le> n_subsampling ?arch + n_taps ?arch"
    and "build_blocks dec config = Inl IndexError \<Longrightarrow> \<not> n_concats ?arch \<le> n_subsampling ?arch + n_taps ?arch"
    by simp_all
qed

lemma build_blocks_no_external:
  assumes "accepts_architecture dec config"
  shows "build_blocks dec config \<noteq> Inl (External x)"
proof -
  let ?arch = "architecture config"
  have all: "\<forall>b \<in> set ?arch. \<forall>r i_dim o_dim l. \<exists>m. dec b r i_dim o_dim l config = Inr m"
    using assms by (simp add: accepts_architecture_def)
  have e: "encoder_loop dec config 0 ?arch (init_builder config) \<noteq> Inl (External x)"
    using all by (rule encoder_loop_no_external)
  have "\<forall>b \<in> set (drop (find_start_i 0 ?arch) ?arch).
      \<forall>r i_dim o_dim l. \<exists>m. dec b r i_dim o_dim l config = Inr m"
    using all by (meson in_set_dropD)
  then have d: "\<And>s. decoder_loop dec config (find_start_i 0 ?arch) 0
      (drop (find_start_i 0 ?arch) ?arch) s \<noteq> Inl (External x)"
    by (rule decoder_loop_no_external)
  show ?thesis
  proof (cases "encoder_loop dec config 0 ?arch (init_builder config)")
    case (Inl err)
    with e show ?thesis by (auto simp: build_blocks_def)
  next
    case (Inr s1)
    with d[of "s1\<lparr>in_dim := in_dim_3d s1 + in_dim_2d s1\<rparr>"] show ?thesis
      by (simp add: build_blocks_def Let_def)
  qed
qed

lemma build_blocks_value_error:
  assumes "build_blocks dec config = Inl (ValueError msg)"
  shows "\<exists>b \<in> set (architecture config). str_in ''equivariant'' b"
proof (cases "encoder_loop dec config 0 (architecture config) (init_builder config)")
  case (Inl e)
  with assms have "encoder_loop dec config 0 (architecture config) (init_builder config)
      = Inl (ValueError msg)"
    by (simp add: build_blocks_def)
  then show ?thesis by (rule encoder_loop_value_error)
next
  case (Inr s1)
  with assms have "decoder_loop dec config (find_start_i 0 (architecture config)) 0
      (drop (find_start_i 0 (architecture config)) (architecture config))
      (s1\<lparr>in_dim := in_dim_3d s1 + in_dim_2d s1\<rparr>) = Inl (ValueError msg)"
    by (simp add: build_blocks_def Let_def)
  from decoder_loop_errors[OF this] show ?thesis by simp
qed

text \<open>
  Claim C5, as stated, fails: the architecture \<open>simple, upsample, unary\<close> has no
  pooling or strided transition and one upsampling transition, and construction succeeds;
  the lookup \<open>encoder_skip_dims[-1]\<close> returns the last recorded width.
\<close>

theorem more_upsamplings_construct_counterexample:
  "(case KPFCNN_featureAggre_init any_block (Inr ())
           (example_config [''simple'', ''upsample'', ''unary''] 128 ''point2point'')
           [0, 1, 2] [0] of
      Inl e \<Rightarrow> False
    | Inr net \<Rightarrow>
        n_subsampling [''simple'', ''upsample'', ''unary''] = 0
        \<and> n_upsampling [''simple'', ''upsample'', ''unary''] = 1
        \<and> encoder_skip_dims (built net) = [128] \<and> decoder_concats (built net) = [1])"
  by (simp add: KPFCNN_featureAggre_init_def builder_defs example_config_def any_block_def
      n_subsampling_def n_upsampling_def encoder_part_def)

text \<open>
  Claim C5, amended. Write \<open>c\<close> for the number of upsampling blocks followed by another
  block and \<open>T\<close> for the number of recorded skip taps. Whatever the block decider does,
  construction succeeds only if \<open>c \<le> N + T\<close>, and when \<open>c \<le> N + T\<close> it does not fail
  with the \<open>IndexError\<close> of the skip-width lookup. When no descriptor contains
  \<open>equivariant\<close> and construction does not end in an exception of the block decider or
  of the loading of the 2D network, it succeeds if and only if \<open>c \<le> N + T\<close>, and
  otherwise fails with that \<open>IndexError\<close>. No such exception occurs when the 2D network
  loads and the block decider accepts the descriptors of the architecture. The bound holds
  whenever \<open>M \<le> N\<close>.
\<close>

theorem construction_succeeds_iff:
  "((\<exists>net. KPFCNN_featureAggre_init dec ld config lbl ign = Inr net) \<longrightarrow>
       n_concats (architecture config)
         \<le> n_subsampling (architecture config) + n_taps (architecture config))
   \<and> (n_concats (architecture config)
         \<le> n_subsampling (architecture config) + n_taps (architecture config) \<longrightarrow>
       KPFCNN_featureAggre_init dec ld config lbl ign \<noteq> Inl IndexError)
   \<and> ((\<forall>b \<in> set (architecture config). \<not> str_in ''equivariant'' b)
        \<and> (\<forall>x. KPFCNN_featureAggre_init dec ld config lbl ign \<noteq> Inl (External x)) \<longrightarrow>
       ((\<exists>net. KPFCNN_featureAggre_init dec ld config lbl ign = Inr net) \<longleftrightarrow>
          n_concats (architecture config)
            \<le> n_subsampling (architecture config) + n_taps (architecture config))
       \<and> (\<not> n_concats (architecture config)
              \<le> n_subsampling (architecture config) + n_taps (architecture config) \<longrightarrow>
            KPFCNN_featureAggre_init dec ld config lbl ign = Inl IndexError))
   \<and> (accepts_architecture dec config \<and> (\<exists>n. ld = Inr n) \<longrightarrow>
       (\<forall>x. KPFCNN_featureAggre_init dec ld config lbl ign \<noteq> Inl (External x)))
   \<and> (n_upsampling (architecture config) \<le> n_subsampling (architecture config) \<longrightarrow>
       n_concats (architecture config)
         \<le> n_subsampling (architecture config) + n_taps (architecture config))"
proof -
  let ?arch = "architecture config"
  let ?init = "KPFCNN_featureAggre_init dec ld config lbl ign"
  let ?ok = "n_concats ?arch \<le> n_subsampling ?arch + n_taps ?arch"
  have 1: "(\<exists>net. ?init = Inr net) \<longrightarrow> ?ok"
  proof
    assume "\<exists>net. ?init = Inr net"
    then obtain s where "build_blocks dec config = Inr s"
      by (auto simp: KPFCNN_featureAggre_init_def split: sum.splits)
    then show ?ok by (rule build_blocks_lookups(1))
  qed
  have 2: "?ok \<longrightarrow> ?init \<noteq> Inl IndexError"
  proof (intro impI notI)
    assume ok: ?ok and "?init = Inl IndexError"
    then have "build_blocks dec config = Inl IndexError"
      by (auto simp: KPFCNN_featureAggre_init_def split: sum.splits)
    then have "\<not> ?ok" by (rule build_blocks_lookups(2))
    with ok show False by simp
  qed
  have 3: "(\<forall>b \<in> set ?arch. \<not> str_in ''equivariant'' b) \<and> (\<forall>x. ?init \<noteq> Inl (External x)) \<longrightarrow>
      ((\<exists>net. ?init = Inr net) \<longleftrightarrow> ?ok) \<and> (\<not> ?ok \<longrightarrow> ?init = Inl IndexError)"
  proof
    assume h: "(\<forall>b \<in> set ?arch. \<not> str_in ''equivariant'' b) \<and> (\<forall>x. ?init \<noteq> Inl (External x))"
    have r: "(\<exists>net. ?init = Inr net) \<or> ?init = Inl IndexError"
    proof (cases ?init)
      case (Inr net)
      then show ?thesis by simp
    next
      case (Inl e)
      from init_errors[OF Inl] consider
        "e = ValueError ''Equivariant block but features dimension is not a factor of 3''"
        | "e = IndexError" | x where "e = External x"
        by blast
      then show ?thesis
      proof cases
        case 1
        with Inl have "build_blocks dec config =
            Inl (ValueError ''Equivariant block but features dimension is not a factor of 3'')"
          by (auto simp: KPFCNN_featureAggre_init_def split: sum.splits)
        from build_blocks_value_error[OF this] h show ?thesis by blast
      next
        case 2
        with Inl show ?thesis by simp
      next
        case 3
        with Inl h show ?thesis by simp
      qed
    qed
    with 1 2 show "((\<exists>net. ?init = Inr net) \<longleftrightarrow> ?ok) \<and> (\<not> ?ok \<longrightarrow> ?init = Inl IndexError)"
      by auto
  qed
  have 4: "accepts_architecture dec config \<and> (\<exists>n. ld = Inr n) \<longrightarrow>
      (\<forall>x. ?init \<noteq> Inl (External x))"
  proof (intro impI allI)
    fix x assume h: "accepts_architecture dec config \<and> (\<exists>n. ld = Inr n)"
    then have "accepts_architecture dec config" by simp
    then have "build_blocks dec config \<noteq> Inl (External x)"
      by (rule build_blocks_no_external)
    with h show "?init \<noteq> Inl (External x)"
      by (auto simp: KPFCNN_featureAggre_init_def split: sum.splits)
  qed
  have "n_concats ?arch \<le> n_upsampling ?arch"
    unfolding n_concats_def n_upsampling_def by (rule filter_butlast_le)
  then have 5: "n_upsampling ?arch \<le> n_subsampling ?arch \<longrightarrow> ?ok"
    by simp
  from 1 2 3 4 5 show ?thesis by blast
qed

theorem construction_succeeds_iff_witness:
  "accepts_architecture
      (only_blocks [''simple'', ''resnetb'', ''resnetb_strided'', ''nearest_upsample'', ''unary''])
      (example_config
         [''simple'', ''resnetb_strided'', ''resnetb'', ''nearest_upsample'', ''unary'']
         128 ''point2point'')
   \<and> only_blocks [''simple'', ''resnetb'', ''resnetb_strided'', ''nearest_upsample'', ''unary'']
        ''conv'' 1 4 128 0
        (example_config
           [''simple'', ''resnetb_strided'', ''resnetb'', ''nearest_upsample'', ''unary'']
           128 ''point2point'') = Inl ()
   \<and> n_upsampling [''simple'', ''resnetb_strided'', ''resnetb'', ''nearest_upsample'', ''unary'']
       \<le> n_subsampling
            [''simple'', ''resnetb_strided'', ''resnetb'', ''nearest_upsample'', ''unary'']
   \<and> (\<exists>net. KPFCNN_featureAggre_init
        (only_blocks [''simple'', ''resnetb'', ''resnetb_strided'', ''nearest_upsample'', ''unary''])
        (Inr ())
        (example_config
           [''simple'', ''resnetb_strided'', ''resnetb'', ''nearest_upsample'', ''unary'']
           128 ''point2point'') [0, 1, 2] [0] = Inr net)
   \<and> (\<exists>net. KPFCNN_featureAggre_init
        (only_blocks [''simple'', ''resnetb'', ''resnetb_strided'', ''nearest_upsample'', ''unary''])
        (Inr ())
        (example_config [''simple'', ''nearest_upsample'', ''unary''] 128 ''point2point'')
        [0, 1, 2] [0] = Inr net)
   \<and> KPFCNN_featureAggre_init
        (only_blocks [''simple'', ''resnetb'', ''resnetb_strided'', ''nearest_upsample'', ''unary''])
        (Inr ())
        (example_config [''nearest_upsample'', ''unary'', ''nearest_upsample'', ''unary'']
           128 ''point2point'')
        [0, 1, 2] [0] = Inl IndexError"
proof -
  let ?k = "[''simple'', ''resnetb'', ''resnetb_strided'', ''nearest_upsample'', ''unary'']"
  let ?a = "[''simple'', ''resnetb_strided'', ''resnetb'', ''nearest_upsample'', ''unary'']"
  let ?b = "[''nearest_upsample'', ''unary'', ''nearest_upsample'', ''unary'']"
  let ?m = "[''simple'', ''nearest_upsample'', ''unary'']"
  let ?c = "\<lambda>arch. example_config arch 128 ''point2point''"
  let ?ld = "Inr () :: unit + unit"
  have aa: "architecture (?c arch) = arch" for arch
    by (simp add: example_config_def)
  have acca: "accepts_architecture (only_blocks ?k) (?c ?a)"
    by (simp add: accepts_architecture_def only_blocks_def example_config_def)
  have accb: "accepts_architecture (only_blocks ?k) (?c ?b)"
    by (simp add: accepts_architecture_def only_blocks_def example_config_def)
  have accm: "accepts_architecture (only_blocks ?k) (?c ?m)"
    by (simp add: accepts_architecture_def only_blocks_def example_config_def)
  have eqm: "\<forall>b \<in> set (architecture (?c ?m)). \<not> str_in ''equivariant'' b"
    by (simp add: example_config_def)
  have fit: "n_concats ?m \<le> n_subsampling ?m + n_taps ?m"
    by (simp add: n_concats_def n_subsampling_def n_taps_def visited_def encoder_part_def
        is_subsampling_def is_skip_tap_def)
  have rej: "only_blocks ?k ''conv'' 1 4 128 0 (?c ?a) = Inl ()"
    by (simp add: only_blocks_def)
  have ld: "\<exists>n. ?ld = Inr n"
    by simp
  have eqa: "\<forall>b \<in> set (architecture (?c ?a)). \<not> str_in ''equivariant'' b"
    by (simp add: example_config_def)
  have eqb: "\<forall>b \<in> set (architecture (?c ?b)). \<not> str_in ''equivariant'' b"
    by (simp add: example_config_def)
  have le: "n_upsampling ?a \<le> n_subsampling ?a"
    by (simp add: n_upsampling_def n_subsampling_def encoder_part_def is_subsampling_def)
  have gt: "\<not> n_concats ?b \<le> n_subsampling ?b + n_taps ?b"
    by (simp add: n_concats_def n_subsampling_def n_taps_def visited_def encoder_part_def
        is_subsampling_def is_skip_tap_def)
  from construction_succeeds_iff[of "only_blocks ?k" ?ld "?c ?a" "[0, 1, 2]" "[0]"]
    acca ld eqa le
  have 1: "\<exists>net. KPFCNN_featureAggre_init (only_blocks ?k) ?ld (?c ?a) [0, 1, 2] [0] = Inr net"
    unfolding aa by blast
  from construction_succeeds_iff[of "only_blocks ?k" ?ld "?c ?b" "[0, 1, 2]" "[0]"]
    accb ld eqb gt
  have 2: "KPFCNN_featureAggre_init (only_blocks ?k) ?ld (?c ?b) [0, 1, 2] [0] = Inl IndexError"
    unfolding aa by blast
  from construction_succeeds_iff[of "only_blocks ?k" ?ld "?c ?m" "[0, 1, 2]" "[0]"]
    accm ld eqm fit
  have 3: "\<exists>net. KPFCNN_featureAggre_init (only_blocks ?k) ?ld (?c ?m) [0, 1, 2] [0] = Inr net"
    unfolding aa by blast
  from acca rej le 1 2 3 show ?thesis by blast
qed

subsection \<open>Skip taps\<close>

lemma encoder_step_skips:
  assumes "encoder_step dec config i b s = Inr (stop, s')"
  shows "encoder_skips s' = encoder_skips s @ (if is_skip_tap b then [i] else [])"
    and "encoder_skip_dims s' =
           encoder_skip_dims s @ (if is_skip_tap b then [in_dim_3d s + in_dim_2d s] else [])"
    and "length (encoder_blocks_3d s') = length (encoder_blocks_3d s) + (if stop then 0 else 1)"
    and "length (encoder_blocks_2d s') = length (encoder_blocks_2d s) + (if stop then 0 else 1)"
  using assms
  by (auto simp: encoder_step_def encoder_update_def record_skip_def Let_def
      split: if_splits sum.splits)

lemma encoder_loop_skips:
  "encoder_loop dec config i blocks s = Inr s' \<Longrightarrow>
   \<exists>xs ys. encoder_skips s' = encoder_skips s @ xs
         \<and> encoder_skip_dims s' = encoder_skip_dims s @ ys
         \<and> length xs = length ys
         \<and> (\<forall>x \<in> set xs. i \<le> x \<and> x - i < length (visited blocks) \<and> is_skip_tap (blocks ! (x - i)))"
proof (induction blocks arbitrary: i s)
  case Nil
  then show ?case by simp
next
  case (Cons b bs)
  from Cons.prems obtain stop s1 where st: "encoder_step dec config i b s = Inr (stop, s1)"
    by (auto split: sum.splits)
  have up: "stop = str_in ''upsample'' b"
    using st by (rule encoder_step_stop)
  note sk = encoder_step_skips(1,2)[OF st]
  show ?case
  proof (cases stop)
    case True
    with st Cons.prems have "s' = s1" by simp
    with sk True up show ?thesis by (auto simp: visited_Cons)
  next
    case False
    with st Cons.prems have "encoder_loop dec config (Suc i) bs s1 = Inr s'" by simp
    from Cons.IH[OF this] obtain xs ys where
      x: "encoder_skips s' = encoder_skips s1 @ xs" and
      y: "encoder_skip_dims s' = encoder_skip_dims s1 @ ys" and
      l: "length xs = length ys" and
      a: "\<forall>x \<in> set xs. Suc i \<le> x \<and> x - Suc i < length (visited bs) \<and> is_skip_tap (bs ! (x - Suc i))"
      by blast
    let ?xs = "(if is_skip_tap b then [i] else []) @ xs"
    let ?ys = "(if is_skip_tap b then [in_dim_3d s + in_dim_2d s] else []) @ ys"
    have "encoder_skips s' = encoder_skips s @ ?xs" using x sk by simp
    moreover have "encoder_skip_dims s' = encoder_skip_dims s @ ?ys" using y sk by simp
    moreover have "length ?xs = length ?ys" using l by simp
    moreover have "\<forall>x \<in> set ?xs. i \<le> x \<and> x - i < length (visited (b # bs))
        \<and> is_skip_tap ((b # bs) ! (x - i))"
    proof
      fix x assume "x \<in> set ?xs"
      then consider "x = i" "is_skip_tap b" | "x \<in> set xs" by (auto split: if_splits)
      then show "i \<le> x \<and> x - i < length (visited (b # bs)) \<and> is_skip_tap ((b # bs) ! (x - i))"
      proof cases
        case 1
        then show ?thesis by (simp add: visited_Cons)
      next
        case 2
        with a have "Suc i \<le> x" "x - Suc i < length (visited bs)" "is_skip_tap (bs ! (x - Suc i))"
          by auto
        then show ?thesis using False up by (auto simp: visited_Cons nth_Cons' Suc_diff_le)
      qed
    qed
    ultimately show ?thesis by blast
  qed
qed

lemma zip_mem_middle:
  "length xs = length ys \<Longrightarrow> (a, b) \<in> set (zip (xs @ a # xs') (ys @ b # ys'))"
  by (simp add: zip_append)

lemma encoder_loop_tap_recorded:
  "encoder_loop dec config i blocks s = Inr s' \<Longrightarrow>
   length (encoder_skips s) = length (encoder_skip_dims s) \<Longrightarrow>
   k < length (visited blocks) \<Longrightarrow> is_skip_tap (blocks ! k) \<Longrightarrow>
   \<exists>sk. encoder_loop dec config i (take k blocks) s = Inr sk
       \<and> length (encoder_blocks_3d sk) = length (encoder_blocks_3d s) + k
       \<and> length (encoder_blocks_2d sk) = length (encoder_blocks_2d s) + k
       \<and> (i + k, in_dim_3d sk + in_dim_2d sk)
            \<in> set (zip (encoder_skips s') (encoder_skip_dims s'))"
proof (induction blocks arbitrary: i s k)
  case Nil
  then show ?case by (simp add: visited_def)
next
  case (Cons b bs)
  from Cons.prems(1) obtain stop s1 where st: "encoder_step dec config i b s = Inr (stop, s1)"
    by (auto split: sum.splits)
  have up: "stop = str_in ''upsample'' b"
    using st by (rule encoder_step_stop)
  note sk = encoder_step_skips[OF st]
  have eq1: "length (encoder_skips s1) = length (encoder_skip_dims s1)"
    using sk Cons.prems(2) by simp
  show ?case
  proof (cases k)
    case 0
    with Cons.prems(4) have tap: "is_skip_tap b" by simp
    have "\<exists>xs ys. encoder_skips s' = encoder_skips s1 @ xs
         \<and> encoder_skip_dims s' = encoder_skip_dims s1 @ ys \<and> length xs = length ys"
    proof (cases stop)
      case True
      with st Cons.prems(1) have "s' = s1" by simp
      then show ?thesis by simp
    next
      case False
      with st Cons.prems(1) have "encoder_loop dec config (Suc i) bs s1 = Inr s'" by simp
      from encoder_loop_skips[OF this] show ?thesis by blast
    qed
    then obtain xs ys where
      x: "encoder_skips s' = encoder_skips s1 @ xs" and
      y: "encoder_skip_dims s' = encoder_skip_dims s1 @ ys"
      by blast
    have "(i, in_dim_3d s + in_dim_2d s) \<in> set (zip (encoder_skips s') (encoder_skip_dims s'))"
      unfolding x y using sk(1,2) tap zip_mem_middle[OF Cons.prems(2)] by simp
    with 0 show ?thesis by simp
  next
    case (Suc k')
    with Cons.prems(3) have nup: "\<not> str_in ''upsample'' b" and k': "k' < length (visited bs)"
      by (auto simp: visited_Cons split: if_splits)
    with up have ns: "\<not> stop" by simp
    with st Cons.prems(1) have rest: "encoder_loop dec config (Suc i) bs s1 = Inr s'" by simp
    from Suc Cons.prems(4) have tap: "is_skip_tap (bs ! k')" by simp
    from Cons.IH[OF rest eq1 k' tap] obtain sk' where
      1: "encoder_loop dec config (Suc i) (take k' bs) s1 = Inr sk'" and
      2: "length (encoder_blocks_3d sk') = length (encoder_blocks_3d s1) + k'" and
      3: "length (encoder_blocks_2d sk') = length (encoder_blocks_2d s1) + k'" and
      4: "(Suc i + k', in_dim_3d sk' + in_dim_2d sk')
            \<in> set (zip (encoder_skips s') (encoder_skip_dims s'))"
      by blast
    have "encoder_loop dec config i (take k (b # bs)) s = Inr sk'"
      using Suc st ns 1 by simp
    with 2 3 4 sk(3,4) ns Suc show ?thesis by simp
  qed
qed

lemma decoder_loop_keeps:
  "decoder_loop dec config st i blocks s = Inr s' \<Longrightarrow>
   encoder_skip_dims s' = encoder_skip_dims s \<and> encoder_skips s' = encoder_skips s"
proof (induction blocks arbitrary: i s)
  case Nil
  then show ?case by simp
next
  case (Cons b bs)
  from Cons.prems obtain s1 where st: "decoder_step dec config st i b s = Inr s1"
    and rest: "decoder_loop dec config st (Suc i) bs s1 = Inr s'"
    by (auto split: sum.splits)
  from Cons.IH[OF rest] decoder_step_keeps[OF st] show ?case by simp
qed

text \<open>
  Claim C1, as stated, fails: the encoder loop breaks at the first block containing
  \<open>upsample\<close>, so a later block is never visited by it. In the architecture below the
  block at index 7 contains \<open>upsample\<close> and no tap is recorded for it.
\<close>

theorem later_upsample_not_recorded_counterexample:
  "(case KPFCNN_featureAggre_init any_block (Inr ())
           (example_config
              [''simple'', ''resnetb_strided'', ''resnetb'', ''resnetb_strided'', ''resnetb'',
               ''upsample'', ''unary'', ''upsample'', ''unary''] 128 ''point2point'')
           [0, 1, 2] [0] of
      Inl e \<Rightarrow> False
    | Inr net \<Rightarrow>
        str_in ''upsample''
          ([''simple'', ''resnetb_strided'', ''resnetb'', ''resnetb_strided'', ''resnetb'',
            ''upsample'', ''unary'', ''upsample'', ''unary''] ! 7)
        \<and> encoder_skips (built net) = [1, 3, 5]
        \<and> 7 \<notin> set (encoder_skips (built net)))"
  by (simp add: KPFCNN_featureAggre_init_def builder_defs example_config_def any_block_def)

text \<open>
  Claim C1, amended. After a successful construction, for every block up to and including
  the first block containing \<open>upsample\<close> whose descriptor contains one of \<open>pool\<close>,
  \<open>strided\<close>, \<open>upsample\<close>, \<open>global\<close>: the encoder loop reaches the block in a
  state in which exactly the earlier blocks have been constructed, and the block's index
  is recorded in \<open>encoder_skips\<close> together with the sum of the 3D and 2D input widths
  of that state in \<open>encoder_skip_dims\<close>. Nothing is recorded for any other block.
\<close>

theorem skip_taps_recorded:
  assumes "KPFCNN_featureAggre_init dec ld config lbl ign = Inr net"
  shows "(\<forall>k < length (visited (architecture config)).
            is_skip_tap (architecture config ! k) \<longrightarrow>
            (\<exists>s. encoder_loop dec config 0 (take k (architecture config)) (init_builder config)
                   = Inr s
                \<and> length (encoder_blocks_3d s) = k
                \<and> length (encoder_blocks_2d s) = k
                \<and> (k, in_dim_3d s + in_dim_2d s)
                     \<in> set (zip (encoder_skips (built net)) (encoder_skip_dims (built net)))))
       \<and> (\<forall>k \<in> set (encoder_skips (built net)).
            k < length (visited (architecture config)) \<and> is_skip_tap (architecture config ! k))"
proof -
  let ?arch = "architecture config"
  from assms obtain sf where sf: "build_blocks dec config = Inr sf" and b: "built net = sf"
    by (auto simp: KPFCNN_featureAggre_init_def split: sum.splits)
  from sf obtain s1 where
    e: "encoder_loop dec config 0 ?arch (init_builder config) = Inr s1" and
    d: "decoder_loop dec config (find_start_i 0 ?arch) 0 (drop (find_start_i 0 ?arch) ?arch)
          (s1\<lparr>in_dim := in_dim_3d s1 + in_dim_2d s1\<rparr>) = Inr sf"
    by (auto simp: build_blocks_def Let_def split: sum.splits)
  from decoder_loop_keeps[OF d] have
    k1: "encoder_skips sf = encoder_skips s1" and k2: "encoder_skip_dims sf = encoder_skip_dims s1"
    by simp_all
  have i0: "length (encoder_skips (init_builder config :: 'b builder)) =
      length (encoder_skip_dims (init_builder config :: 'b builder))"
    by (simp add: init_builder_def)
  have 1: "\<forall>k < length (visited ?arch). is_skip_tap (?arch ! k) \<longrightarrow>
            (\<exists>s. encoder_loop dec config 0 (take k ?arch) (init_builder config) = Inr s
                \<and> length (encoder_blocks_3d s) = k
                \<and> length (encoder_blocks_2d s) = k
                \<and> (k, in_dim_3d s + in_dim_2d s)
                     \<in> set (zip (encoder_skips (built net)) (encoder_skip_dims (built net))))"
  proof (intro allI impI)
    fix k assume k: "k < length (visited ?arch)" and t: "is_skip_tap (?arch ! k)"
    from encoder_loop_tap_recorded[OF e i0 k t]
    show "\<exists>s. encoder_loop dec config 0 (take k ?arch) (init_builder config) = Inr s
                \<and> length (encoder_blocks_3d s) = k
                \<and> length (encoder_blocks_2d s) = k
                \<and> (k, in_dim_3d s + in_dim_2d s)
                     \<in> set (zip (encoder_skips (built net)) (encoder_skip_dims (built net)))"
      unfolding b k1 k2 by (simp add: init_builder_def)
  qed
  from encoder_loop_skips[OF e] have
    2: "\<forall>k \<in> set (encoder_skips (built net)). k < length (visited ?arch) \<and> is_skip_tap (?arch ! k)"
    unfolding b k1 by (auto simp: init_builder_def)
  from 1 2 show ?thesis by blast
qed

theorem skip_taps_recorded_witness:
  "(case KPFCNN_featureAggre_init any_block (Inr ())
           (example_config
              [''simple'', ''resnetb_strided'', ''resnetb'', ''upsample'', ''unary'']
              128 ''point2point'')
           [0, 1, 2] [0] of
      Inl e \<Rightarrow> False
    | Inr net \<Rightarrow>
        (1, 128) \<in> set (zip (encoder_skips (built net)) (encoder_skip_dims (built net))))"
proof -
  let ?a = "[''simple'', ''resnetb_strided'', ''resnetb'', ''upsample'', ''unary'']"
  let ?c = "example_config ?a 128 ''point2point''"
  obtain net :: "(string \<times> real \<times> int \<times> int \<times> int, unit) kpfcnn"
    where n: "KPFCNN_featureAggre_init any_block (Inr ()) ?c [0, 1, 2] [0] = Inr net"
    by (simp add: KPFCNN_featureAggre_init_def builder_defs example_config_def any_block_def)
  have a: "architecture ?c = ?a"
    by (simp add: example_config_def)
  have v: "1 < length (visited ?a)"
    by (simp add: visited_def)
  have t: "is_skip_tap (?a ! 1)"
    by (simp add: is_skip_tap_def)
  obtain s0 :: "(string \<times> real \<times> int \<times> int \<times> int) builder"
    where s0: "encoder_loop any_block ?c 0 (take 1 ?a) (init_builder ?c) = Inr s0"
      and w: "in_dim_3d s0 + in_dim_2d s0 = 128"
    by (simp add: builder_defs example_config_def any_block_def)
  from skip_taps_recorded[OF n] v t obtain s where
    "encoder_loop any_block ?c 0 (take 1 ?a) (init_builder ?c) = Inr s"
    "(1, in_dim_3d s + in_dim_2d s)
       \<in> set (zip (encoder_skips (built net)) (encoder_skip_dims (built net)))"
    unfolding a by blast
  with s0 w show ?thesis by (simp add: n)
qed

section \<open>Properties of loss and accuracy\<close>

subsection \<open>Where the fitting mode is checked\<close>

text \<open>
  Claim C6, as stated, fails: with the fitting mode \<open>point2plane\<close> construction succeeds
  and stores the mode.
\<close>

theorem point2plane_constructs_counterexample:
  "(case KPFCNN_featureAggre_init any_block (Inr ())
           (example_config
              [''simple'', ''resnetb_strided'', ''resnetb'', ''upsample'', ''unary'']
              128 ''point2plane'')
           [0, 1, 2] [0] of
      Inl e \<Rightarrow> False
    | Inr net \<Rightarrow> net_deform_fitting_mode net = ''point2plane'')"
  by (simp add: KPFCNN_featureAggre_init_def builder_defs example_config_def any_block_def)

text \<open>
  Claim C6, amended. Construction does not look at the fitting mode: a constructed model
  stores the mode of the configuration as it is. When the stored mode is not
  \<open>point2point\<close>, every call of \<open>loss\<close> whose criterion returned a value raises a
  \<open>ValueError\<close> that names the cause: the fixed message for \<open>point2plane\<close>, and
  \<open>Unknown fitting mode: \<close> followed by the mode otherwise.
\<close>

theorem fitting_mode_checked_in_loss:
  assumes "KPFCNN_featureAggre_init dec ld config lbl ign = Inr net"
    and "deform_fitting_mode config \<noteq> ''point2point''"
    and "ce (net_criterion net) outputs (loss_target (valid_labels net) labels) = Inr v"
  shows "net_deform_fitting_mode net = deform_fitting_mode config
       \<and> loss ce ms net outputs labels =
           Inl (ValueError
                 (if deform_fitting_mode config = ''point2plane''
                  then ''point2plane fitting mode not implemented yet.''
                  else ''Unknown fitting mode: '' @ deform_fitting_mode config))"
proof -
  from assms(1) have m: "net_deform_fitting_mode net = deform_fitting_mode config"
    by (auto simp: KPFCNN_featureAggre_init_def split: sum.splits)
  with assms(2,3) show ?thesis
    by (simp add: loss_def Let_def)
qed

theorem fitting_mode_checked_in_loss_witness:
  "(case KPFCNN_featureAggre_init any_block (Inr ())
           (example_config [''simple'', ''upsample'', ''unary''] 128 ''plane2plane'')
           [0, 1, 2] [0] of
      Inl e \<Rightarrow> False
    | Inr net \<Rightarrow>
        loss (\<lambda>c outputs target. Inr 1 :: unit py_error + real) [] net () [1, 2, 0] =
          Inl (ValueError ''Unknown fitting mode: plane2plane''))"
proof -
  let ?c = "example_config [''simple'', ''upsample'', ''unary''] 128 ''plane2plane''"
  obtain net :: "(string \<times> real \<times> int \<times> int \<times> int, unit) kpfcnn"
    where n: "KPFCNN_featureAggre_init any_block (Inr ()) ?c [0, 1, 2] [0] = Inr net"
    by (simp add: KPFCNN_featureAggre_init_def builder_defs example_config_def any_block_def)
  have m: "deform_fitting_mode ?c = ''plane2plane''"
    by (simp add: example_config_def)
  have p: "deform_fitting_mode ?c \<noteq> ''point2point''"
    by (simp add: example_config_def)
  show ?thesis
    using fitting_mode_checked_in_loss[where ce = "\<lambda>c outputs target. Inr 1 :: unit py_error + real"
        and outputs = "()" and labels = "[1, 2, 0]" and ms = "[]" and v = 1, OF n p]
    by (simp add: n m)
qed

subsection \<open>The label remapping\<close>

lemma loss_target_snoc:
  "loss_target (valid @ [c]) labels =
     map (\<lambda>(l, t). if l = c then int (length valid) else t) (zip labels (loss_target valid labels))"
  by (simp add: loss_target_def enumerate_append_eq)

lemma loss_target_length: "length (loss_target valid labels) = length labels"
proof (induction valid rule: rev_induct)
  case Nil
  then show ?case by (simp add: loss_target_def)
next
  case (snoc c valid)
  then show ?case by (simp add: loss_target_snoc)
qed

lemma loss_target_nth:
  assumes "j < length labels"
  shows "(loss_target valid labels ! j = - 1 \<and> labels ! j \<notin> set valid)
       \<or> (0 \<le> loss_target valid labels ! j \<and> loss_target valid labels ! j < int (length valid)
          \<and> valid ! nat (loss_target valid labels ! j) = labels ! j)"
proof (induction valid rule: rev_induct)
  case Nil
  then show ?case using assms by (simp add: loss_target_def)
next
  case (snoc c valid)
  have n: "loss_target (valid @ [c]) labels ! j =
      (if labels ! j = c then int (length valid) else loss_target valid labels ! j)"
    using assms by (simp add: loss_target_snoc loss_target_length)
  show ?case
  proof (cases "labels ! j = c")
    case True
    then show ?thesis using n by simp
  next
    case False
    then show ?thesis using n snoc by (auto simp: nth_append)
  qed
qed

lemma loss_target_ignored:
  assumes "j < length labels" and "labels ! j \<notin> set valid"
  shows "loss_target valid labels ! j = - 1"
proof -
  let ?t = "loss_target valid labels ! j"
  from loss_target_nth[OF assms(1), of valid] consider
    "?t = - 1" | "0 \<le> ?t" "?t < int (length valid)" "valid ! nat ?t = labels ! j"
    by blast
  then show ?thesis
  proof cases
    case 1
    then show ?thesis .
  next
    case 2
    then have "nat ?t < length valid" by simp
    then have "valid ! nat ?t \<in> set valid" by (rule nth_mem)
    with 2(3) assms(2) show ?thesis by simp
  qed
qed

lemma loss_target_identity_list:
  assumes "valid = map int [0..<length valid]"
  shows "loss_target valid labels = map (\<lambda>l. if l \<in> set valid then l else - 1) labels"
proof (rule nth_equalityI)
  show "length (loss_target valid labels) = length (map (\<lambda>l. if l \<in> set valid then l else - 1) labels)"
    by (simp add: loss_target_length)
next
  fix j assume "j < length (loss_target valid labels)"
  then have j: "j < length labels" by (simp add: loss_target_length)
  have v: "\<And>k. k < length valid \<Longrightarrow> valid ! k = int k"
  proof -
    fix k assume "k < length valid"
    then have "map int [0..<length valid] ! k = int k" by simp
    with assms show "valid ! k = int k" by simp
  qed
  let ?t = "loss_target valid labels ! j"
  from loss_target_nth[OF j, of valid] consider
    (ignored) "?t = - 1" "labels ! j \<notin> set valid"
    | (valid) "0 \<le> ?t" "?t < int (length valid)" "valid ! nat ?t = labels ! j"
    by blast
  then show "?t = map (\<lambda>l. if l \<in> set valid then l else - 1) labels ! j"
  proof cases
    case ignored
    then show ?thesis using j by simp
  next
    case valid
    then have k: "nat ?t < length valid" by simp
    from v[OF k] valid have e: "labels ! j = ?t" by simp
    from k have "valid ! nat ?t \<in> set valid" by (rule nth_mem)
    with valid(3) have "labels ! j \<in> set valid" by simp
    with e show ?thesis using j by simp
  qed
qed

lemma identity_list_nonneg:
  assumes "valid = map int [0..<length valid]"
  shows "(- 1) \<notin> set valid"
proof
  assume "- 1 \<in> set valid"
  then have "- 1 \<in> set (map int [0..<length valid])" using assms by simp
  then show False by auto
qed

text \<open>
  Claim C7, as stated, fails in its last part: with the valid labels \<open>[1, 2]\<close> the
  labels \<open>[1, 2, 0]\<close> are remapped to \<open>[0, 1, -1]\<close>, and these to \<open>[-1, 0, -1]\<close>.
\<close>

theorem remap_not_idempotent_counterexample:
  "loss_target [1, 2] (loss_target [1, 2] [1, 2, 0]) \<noteq> loss_target [1, 2] [1, 2, 0]"
  by (simp add: loss_target_def)

text \<open>
  Claim C7, amended. The remapping returns a tensor of the size of its input. Each entry
  is either the sentinel \<open>-1\<close>, for a label that is not in the valid list, or an index
  in \<open>[0, C-1]\<close> at which the valid list (of length \<open>C\<close>) holds the label. Applying
  the remapping twice gives the result of applying it once when the valid list is
  \<open>[0, 1, ..., C-1]\<close>.
\<close>

theorem remap_range_and_idempotence:
  "length (loss_target valid labels) = length labels
   \<and> (\<forall>j < length labels.
        (loss_target valid labels ! j = - 1 \<and> labels ! j \<notin> set valid)
        \<or> (0 \<le> loss_target valid labels ! j
           \<and> loss_target valid labels ! j \<le> int (length valid) - 1
           \<and> valid ! nat (loss_target valid labels ! j) = labels ! j))
   \<and> (valid = map int [0..<length valid] \<longrightarrow>
        loss_target valid (loss_target valid labels) = loss_target valid labels)"
proof (intro conjI allI impI)
  show "length (loss_target valid labels) = length labels"
    by (rule loss_target_length)
next
  fix j assume "j < length labels"
  from loss_target_nth[OF this, of valid]
  show "(loss_target valid labels ! j = - 1 \<and> labels ! j \<notin> set valid)
        \<or> (0 \<le> loss_target valid labels ! j
           \<and> loss_target valid labels ! j \<le> int (length valid) - 1
           \<and> valid ! nat (loss_target valid labels ! j) = labels ! j)"
    by auto
next
  assume a: "valid = map int [0..<length valid]"
  have "loss_target valid (loss_target valid labels) =
      map (\<lambda>l. if l \<in> set valid then l else - 1) (map (\<lambda>l. if l \<in> set valid then l else - 1) labels)"
    using loss_target_identity_list[OF a] by simp
  also have "\<dots> = map (\<lambda>l. if l \<in> set valid then l else - 1) labels"
    using identity_list_nonneg[OF a] by (simp add: comp_def)
  finally show "loss_target valid (loss_target valid labels) = loss_target valid labels"
    using loss_target_identity_list[OF a] by simp
qed

theorem remap_range_and_idempotence_witness:
  "[0, 1, 2] = map int [0..<length [0, 1, 2 :: int]]
   \<and> (1::nat) < length [5, 1 :: int]
   \<and> loss_target [0, 1, 2] [5, 1] ! 1 = 1
   \<and> loss_target [0, 1, 2] (loss_target [0, 1, 2] [5, 1]) = loss_target [0, 1, 2] [5, 1]"
proof -
  have a: "[0, 1, 2] = map int [0..<length [0, 1, 2 :: int]]"
    by (simp add: upt_rec)
  have "loss_target [0, 1, 2] (loss_target [0, 1, 2] [5, 1]) = loss_target [0, 1, 2] [5, 1]"
    using remap_range_and_idempotence[of "[0, 1, 2]" "[5, 1]"] a by blast
  then show ?thesis using a by (simp add: loss_target_def)
qed

subsection \<open>The denominator of the accuracy\<close>

lemma argmax_rows_nonempty:
  "\<forall>row \<in> set outputs. row \<noteq> [] \<Longrightarrow>
   argmax_rows outputs = Inr (map (\<lambda>row. int (argmax_from 0 (hd row) 1 (tl row))) outputs)"
proof (induction outputs)
  case Nil
  then show ?case by simp
next
  case (Cons row rows)
  then show ?case by (cases row) (simp_all add: argmax_row_def)
qed

lemma count_zip_eq:
  "length xs = length ys \<Longrightarrow>
   length (filter (\<lambda>(p, t). p = t) (zip xs ys)) =
   length (filter (\<lambda>j. xs ! j = ys ! j) [0..<length ys])"
proof -
  assume l: "length xs = length ys"
  have "zip xs ys = map (\<lambda>j. (xs ! j, ys ! j)) [0..<length ys]"
    using l by (intro nth_equalityI) simp_all
  then have "filter (\<lambda>(p, t). p = t) (zip xs ys) =
      map (\<lambda>j. (xs ! j, ys ! j)) (filter (\<lambda>j. xs ! j = ys ! j) [0..<length ys])"
    by (simp add: filter_map comp_def)
  then show ?thesis by simp
qed

lemma accuracy_target_length: "length (accuracy_target valid labels) = length labels"
proof (induction valid rule: rev_induct)
  case Nil
  then show ?case by (simp add: accuracy_target_def)
next
  case (snoc c valid)
  then show ?case by (simp add: accuracy_target_def enumerate_append_eq)
qed

lemma accuracy_target_ignored:
  "j < length labels \<Longrightarrow> labels ! j \<notin> set valid \<Longrightarrow> accuracy_target valid labels ! j = - 1"
proof (induction valid rule: rev_induct)
  case Nil
  then show ?case by (simp add: accuracy_target_def)
next
  case (snoc c valid)
  then have "accuracy_target valid labels ! j = - 1" by simp
  moreover have "accuracy_target (valid @ [c]) labels =
      map (\<lambda>(l, t). if l = c then int (length valid) else t) (zip labels (accuracy_target valid labels))"
    by (simp add: accuracy_target_def enumerate_append_eq)
  ultimately show ?case using snoc.prems by (simp add: accuracy_target_length)
qed

lemma init_criterion:
  "KPFCNN_featureAggre_init dec ld config lbl ign = Inr net \<Longrightarrow>
   \<exists>w. net_criterion net = CrossEntropyLoss w (- 1)"
  by (auto simp: KPFCNN_featureAggre_init_def split: sum.splits if_splits)

text \<open>
  Claim C9. For a constructed model, logits with one nonempty row per label and a
  nonempty label tensor, \<open>accuracy\<close> is the number of points whose argmax equals the
  remapped target, divided by the number of all labels. A label outside the valid list is
  remapped to \<open>-1\<close>, which no argmax equals, so it is never counted as correct and still
  counted in the denominator. The criterion of the loss has the ignore index \<open>-1\<close>.
\<close>

theorem accuracy_counts_all_labels:
  assumes "KPFCNN_featureAggre_init dec ld config lbl ign = Inr net"
    and "length outputs = length labels"
    and "labels \<noteq> []"
    and "\<forall>row \<in> set outputs. row \<noteq> []"
  shows "(accuracy net outputs labels :: 'e py_error + real) =
           Inr (real (length (filter
                  (\<lambda>j. int (argmax_from 0 (hd (outputs ! j)) 1 (tl (outputs ! j))) =
                         accuracy_target (valid_labels net) labels ! j)
                  [0..<length labels]))
                / real (length labels))
       \<and> (\<forall>j < length labels. labels ! j \<notin> set (valid_labels net) \<longrightarrow>
             accuracy_target (valid_labels net) labels ! j = - 1
             \<and> loss_target (valid_labels net) labels ! j = - 1
             \<and> int (argmax_from 0 (hd (outputs ! j)) 1 (tl (outputs ! j))) \<noteq>
                 accuracy_target (valid_labels net) labels ! j)
       \<and> (\<exists>w. net_criterion net = CrossEntropyLoss w (- 1))"
proof (intro conjI allI impI)
  let ?pred = "map (\<lambda>row. int (argmax_from 0 (hd row) 1 (tl row))) outputs"
  let ?target = "accuracy_target (valid_labels net) labels"
  have p: "(argmax_rows outputs :: 'e py_error + int list) = Inr ?pred"
    using assms(4) by (rule argmax_rows_nonempty)
  have l: "length ?pred = length ?target"
    using assms(2) by (simp add: accuracy_target_length)
  have c: "(count_equal ?pred ?target :: 'e py_error + nat) =
      Inr (length (filter (\<lambda>j. ?pred ! j = ?target ! j) [0..<length ?target]))"
    using l count_zip_eq[OF l] by (simp add: count_equal_def)
  have "filter (\<lambda>j. ?pred ! j = ?target ! j) [0..<length labels] =
      filter (\<lambda>j. int (argmax_from 0 (hd (outputs ! j)) 1 (tl (outputs ! j))) = ?target ! j)
        [0..<length labels]"
    using assms(2) by (intro filter_cong) simp_all
  with p c assms(3) show "(accuracy net outputs labels :: 'e py_error + real) =
           Inr (real (length (filter
                  (\<lambda>j. int (argmax_from 0 (hd (outputs ! j)) 1 (tl (outputs ! j))) = ?target ! j)
                  [0..<length labels]))
                / real (length labels))"
    by (simp add: accuracy_def Let_def accuracy_target_length)
next
  fix j assume j: "j < length labels" and i: "labels ! j \<notin> set (valid_labels net)"
  show "accuracy_target (valid_labels net) labels ! j = - 1"
    using j i by (rule accuracy_target_ignored)
  then show "int (argmax_from 0 (hd (outputs ! j)) 1 (tl (outputs ! j))) \<noteq>
      accuracy_target (valid_labels net) labels ! j"
    by simp
  show "loss_target (valid_labels net) labels ! j = - 1"
    using j i by (rule loss_target_ignored)
next
  show "\<exists>w. net_criterion net = CrossEntropyLoss w (- 1)"
    using assms(1) by (rule init_criterion)
qed

theorem accuracy_counts_all_labels_witness:
  "(case KPFCNN_featureAggre_init any_block (Inr ())
           (example_config [''simple'', ''upsample'', ''unary''] 128 ''point2point'')
           [0, 1, 2] [0] of
      Inl e \<Rightarrow> False
    | Inr net \<Rightarrow>
        (accuracy net [ [1, 9], [8, 2], [3, 7] ] [2, 1, 0] :: unit py_error + real) = Inr (2 / 3))"
proof -
  let ?c = "example_config [''simple'', ''upsample'', ''unary''] 128 ''point2point''"
  obtain net :: "(string \<times> real \<times> int \<times> int \<times> int, unit) kpfcnn"
    where n: "KPFCNN_featureAggre_init any_block (Inr ()) ?c [0, 1, 2] [0] = Inr net"
      and v: "valid_labels net = [1, 2]"
    by (simp add: KPFCNN_featureAggre_init_def builder_defs example_config_def any_block_def)
  have l: "length [ [1, 9], [8, 2], [3, 7 :: real] ] = length [2, 1, 0 :: int]"
    by simp
  have e: "[2, 1, 0 :: int] \<noteq> []"
    by simp
  have r: "\<forall>row \<in> set [ [1, 9], [8, 2], [3, 7 :: real] ]. row \<noteq> []"
    by simp
  have u: "[0..<3] = [0, 1, 2]"
    by (simp add: upt_rec)
  show ?thesis
    using accuracy_counts_all_labels[OF n l e r, where ?'e = unit]
    by (simp add: n v u accuracy_target_def)
qed

subsection \<open>The repulsion term of the regularizer\<close>

lemma clamped_sq_nonneg: "0 \<le> clamped_sq ext d"
  by (simp add: clamped_sq_def)

lemma clamped_sq_pos_iff: "0 < clamped_sq ext d \<longleftrightarrow> d < ext"
  by (auto simp: clamped_sq_def min_def)

lemma sum_clamped_nonneg: "0 \<le> sum_list (map (clamped_sq ext) ds)"
  by (rule sum_list_nonneg) (auto simp: clamped_sq_nonneg)

lemma sum_clamped_pos_iff:
  "0 < sum_list (map (clamped_sq ext) ds) \<longleftrightarrow> (\<exists>d \<in> set ds. d < ext)"
proof -
  have "sum_list (map (clamped_sq ext) ds) = 0 \<longleftrightarrow> (\<forall>x \<in> set (map (clamped_sq ext) ds). x = 0)"
    by (rule sum_list_nonneg_eq_0_iff) (auto simp: clamped_sq_nonneg)
  also have "\<dots> \<longleftrightarrow> (\<forall>d \<in> set ds. \<not> d < ext)"
    using clamped_sq_pos_iff[of ext] clamped_sq_nonneg[of ext]
    by (auto simp: less_le)
  finally show ?thesis
    using sum_clamped_nonneg[of ext ds] by (auto simp: less_le)
qed

lemma set_others:
  "i < length row \<Longrightarrow>
   set (take i row @ drop (Suc i) row) = {row ! j | j. j < length row \<and> j \<noteq> i}"
proof -
  assume i: "i < length row"
  have t: "set (take i row) = {row ! j | j. j < i}"
  proof (intro set_eqI iffI)
    fix x assume "x \<in> set (take i row)"
    then obtain k where "k < length (take i row)" "take i row ! k = x"
      by (auto simp: in_set_conv_nth)
    then have "k < i" "x = row ! k" using i by simp_all
    then show "x \<in> {row ! j | j. j < i}" by blast
  next
    fix x assume "x \<in> {row ! j | j. j < i}"
    then obtain j where j: "j < i" "x = row ! j" by blast
    then have "j < length (take i row)" "take i row ! j = x" using i by simp_all
    then show "x \<in> set (take i row)" by (auto simp: in_set_conv_nth)
  qed
  have d: "set (drop (Suc i) row) = {row ! j | j. Suc i \<le> j \<and> j < length row}"
  proof -
    have "set (drop (Suc i) row) = {drop (Suc i) row ! k | k. k < length row - Suc i}"
      by (auto simp: set_conv_nth)
    also have "\<dots> = {row ! j | j. Suc i \<le> j \<and> j < length row}"
    proof (intro set_eqI iffI)
      fix x assume "x \<in> {drop (Suc i) row ! k | k. k < length row - Suc i}"
      then obtain k where "k < length row - Suc i" "x = drop (Suc i) row ! k" by blast
      then have "x = row ! (Suc i + k)" "Suc i \<le> Suc i + k" "Suc i + k < length row"
        using i by simp_all
      then show "x \<in> {row ! j | j. Suc i \<le> j \<and> j < length row}" by blast
    next
      fix x assume "x \<in> {row ! j | j. Suc i \<le> j \<and> j < length row}"
      then obtain j where j: "Suc i \<le> j" "j < length row" "x = row ! j" by blast
      then have "x = drop (Suc i) row ! (j - Suc i)" "j - Suc i < length row - Suc i"
        by simp_all
      then show "x \<in> {drop (Suc i) row ! k | k. k < length row - Suc i}" by blast
    qed
    finally show ?thesis .
  qed
  have "{row ! j | j. j < length row \<and> j \<noteq> i} =
      {row ! j | j. j < i} \<union> {row ! j | j. Suc i \<le> j \<and> j < length row}"
  proof (intro set_eqI iffI)
    fix x assume "x \<in> {row ! j | j. j < length row \<and> j \<noteq> i}"
    then obtain j where j: "j < length row" "j \<noteq> i" "x = row ! j" by blast
    then consider "j < i" | "Suc i \<le> j" by linarith
    then show "x \<in> {row ! j | j. j < i} \<union> {row ! j | j. Suc i \<le> j \<and> j < length row}"
      using j by cases blast+
  next
    fix x assume "x \<in> {row ! j | j. j < i} \<union> {row ! j | j. Suc i \<le> j \<and> j < length row}"
    then consider j where "j < i" "x = row ! j" | j where "Suc i \<le> j" "j < length row" "x = row ! j"
      by blast
    then show "x \<in> {row ! j | j. j < length row \<and> j \<noteq> i}"
    proof cases
      case 1
      then have "j < length row" "j \<noteq> i" using i by simp_all
      with 1 show ?thesis by blast
    next
      case 2
      then have "j \<noteq> i" by simp
      with 2 show ?thesis by blast
    qed
  qed
  then show ?thesis
    unfolding set_append t d by simp
qed

lemma kp_distances_row:
  assumes "kp_distances row i = Inr ds"
  shows "(\<exists>d \<in> set ds. d < ext) \<longleftrightarrow> row_close ext row i"
proof (cases "i < length row")
  case True
  then have "take 1 (drop i row) = [row ! i]"
    by (simp add: take_Suc_conv_app_nth[of 0] hd_drop_conv_nth)
  with assms have ds: "ds = map (\<lambda>p. kp_dist p (row ! i)) (take i row @ drop (Suc i) row)"
    by (simp add: kp_distances_def Let_def)
  have "set ds = {kp_dist (row ! j) (row ! i) | j. j < length row \<and> j \<noteq> i}"
    unfolding ds set_map set_others[OF True] by blast
  then show ?thesis using True by (auto simp: row_close_def)
next
  case False
  then have "take 1 (drop i row) = []" by simp
  with assms have "ds = []"
    by (auto simp: kp_distances_def Let_def split: if_splits)
  with False show ?thesis by (simp add: row_close_def)
qed

lemma rep_loss_entries:
  "(rep_loss ext rows i :: 'e py_error + real list) = Inr rl \<Longrightarrow>
     (\<forall>x \<in> set rl. 0 \<le> x)
   \<and> ((\<exists>x \<in> set rl. 0 < x) \<longleftrightarrow> (\<exists>row \<in> set rows. row_close ext row i))"
proof (induction rows arbitrary: rl)
  case Nil
  then show ?case by simp
next
  case (Cons row rows)
  from Cons.prems obtain ds rs where
    ds: "(kp_distances row i :: 'e py_error + real list) = Inr ds" and
    rs: "(rep_loss ext rows i :: 'e py_error + real list) = Inr rs" and
    rl: "rl = sum_list (map (clamped_sq ext) ds) # rs"
    by (auto split: sum.splits)
  from Cons.IH[OF rs] kp_distances_row[OF ds, of ext] sum_clamped_pos_iff[of ext ds]
    sum_clamped_nonneg[of ext ds]
  show ?case unfolding rl by auto
qed

lemma l1_sign:
  assumes "l1 rl = Inr v" and "\<forall>x \<in> set rl. 0 \<le> x"
  shows "0 \<le> v" and "0 < v \<longleftrightarrow> (\<exists>x \<in> set rl. 0 < x)"
proof -
  from assms(1) have ne: "rl \<noteq> []" and v: "v = sum_list (map abs rl) / real (length rl)"
    by (auto simp: l1_def split: if_splits)
  have a: "map abs rl = rl" using assms(2) by (induction rl) auto
  have n: "0 \<le> sum_list rl" using assms(2) by (auto intro: sum_list_nonneg)
  have z: "sum_list rl = 0 \<longleftrightarrow> (\<forall>x \<in> set rl. x = 0)"
    using assms(2) by (auto intro!: sum_list_nonneg_eq_0_iff)
  from ne have l: "0 < real (length rl)" by simp
  show "0 \<le> v" unfolding v a using n l by simp
  have "0 < v \<longleftrightarrow> 0 < sum_list rl"
    unfolding v a using l by (simp add: zero_less_divide_iff)
  also have "\<dots> \<longleftrightarrow> (\<exists>x \<in> set rl. 0 < x)"
    using n z assms(2) by (auto simp: less_le)
  finally show "0 < v \<longleftrightarrow> (\<exists>x \<in> set rl. 0 < x)" .
qed

lemma repulsive_loop_sign:
  "(repulsive_loop ext k locs idx acc :: 'e py_error + real) = Inr r \<Longrightarrow> \<forall>i \<in> set idx. i < k \<Longrightarrow>
     acc \<le> r
   \<and> (acc < r \<longleftrightarrow> (\<exists>i \<in> set idx. \<exists>row \<in> set locs. row_close ext row i))"
proof (induction idx arbitrary: acc)
  case Nil
  then show ?case by simp
next
  case (Cons i idx)
  from Cons.prems(1) obtain rl v where
    rl: "(rep_loss ext locs i :: 'e py_error + real list) = Inr rl" and
    v: "(l1 rl :: 'e py_error + real) = Inr v" and
    rest: "(repulsive_loop ext k locs idx (acc + v / real k) :: 'e py_error + real) = Inr r"
    by (auto split: sum.splits)
  from rep_loss_entries[OF rl] have
    nn: "\<forall>x \<in> set rl. 0 \<le> x" and
    ex: "(\<exists>x \<in> set rl. 0 < x) \<longleftrightarrow> (\<exists>row \<in> set locs. row_close ext row i)"
    by simp_all
  from Cons.prems(2) have k: "0 < real k" by auto
  from l1_sign[OF v nn] k have
    v0: "0 \<le> v / real k" and
    vp: "0 < v / real k \<longleftrightarrow> (\<exists>row \<in> set locs. row_close ext row i)"
    using ex by (simp_all add: zero_less_divide_iff)
  from Cons.prems(2) have "\<forall>i \<in> set idx. i < k" by simp
  from Cons.IH[OF rest this] v0 vp show ?case by auto
qed

lemma regularizer_loop_sign:
  "(regularizer_loop net ms (f, rep) :: 'e py_error + real \<times> real) = Inr (f', rep') \<Longrightarrow>
     rep \<le> rep' \<and> (rep < rep' \<longleftrightarrow> some_pair_closer net ms)"
proof (induction ms arbitrary: f rep)
  case Nil
  then show ?case by (simp add: some_pair_closer_def)
next
  case (Cons m ms)
  show ?case
  proof (cases m)
    case OtherModule
    with Cons.prems
    have "(regularizer_loop net ms (f, rep) :: 'e py_error + real \<times> real) = Inr (f', rep')"
      by simp
    from Cons.IH[OF this] OtherModule show ?thesis
      by (auto simp: some_pair_closer_def)
  next
    case (KPConv c)
    show ?thesis
    proof (cases "deformable c")
      case False
      with KPConv Cons.prems
      have "(regularizer_loop net ms (f, rep) :: 'e py_error + real \<times> real) = Inr (f', rep')"
        by simp
      from Cons.IH[OF this] KPConv False show ?thesis
        by (auto simp: some_pair_closer_def)
    next
      case True
      with KPConv Cons.prems obtain fl r1 where
        r1: "(repulsive_loop (net_repulse_extent net) (net_K net) (KP_locs c) [0..<net_K net] rep
               :: 'e py_error + real) = Inr r1" and
        rest: "(regularizer_loop net ms (f + fl, r1) :: 'e py_error + real \<times> real)
               = Inr (f', rep')"
        by (auto split: sum.splits if_splits)
      have "\<forall>i \<in> set [0..<net_K net]. i < net_K net" by simp
      from repulsive_loop_sign[OF r1 this] have
        a: "rep \<le> r1" and
        b: "rep < r1 \<longleftrightarrow>
            (\<exists>i < net_K net. \<exists>row \<in> set (KP_locs c). row_close (net_repulse_extent net) row i)"
        by auto
      from Cons.IH[OF rest] have
        c: "r1 \<le> rep'" and d: "r1 < rep' \<longleftrightarrow> some_pair_closer net ms"
        by simp_all
      have e: "some_pair_closer net (m # ms) \<longleftrightarrow>
          (\<exists>i < net_K net. \<exists>row \<in> set (KP_locs c). row_close (net_repulse_extent net) row i)
          \<or> some_pair_closer net ms"
        unfolding some_pair_closer_def KPConv using True by auto
      from a b c d e show ?thesis by auto
    qed
  qed
qed

text \<open>
  Claim C8. Over the real numbers, whenever the regularizer's loop over the modules returns
  its pair of sums: the repulsion sum is zero if, in every deformable module and for every
  input point, all pairwise distances between the normalised kernel points are at least
  the repulsion extent (in particular if they all exceed it); and it is strictly positive
  if some kernel point with index below \<open>net.K\<close> has another kernel point of its row
  closer than the repulsion extent.
\<close>

theorem repulsion_zero_or_positive:
  assumes "(regularizer_loop net modules (0, 0) :: 'e py_error + real \<times> real) =
             Inr (fitting_loss, repulsive_loss)"
  shows "((\<forall>m row i j. KPConv m \<in> set modules \<and> deformable m \<and> row \<in> set (KP_locs m)
              \<and> i < net_K net \<and> i < length row \<and> j < length row \<and> j \<noteq> i
              \<longrightarrow> net_repulse_extent net \<le> kp_dist (row ! j) (row ! i))
           \<longrightarrow> repulsive_loss = 0)
       \<and> ((\<exists>m row i j. KPConv m \<in> set modules \<and> deformable m \<and> row \<in> set (KP_locs m)
              \<and> i < net_K net \<and> i < length row \<and> j < length row \<and> j \<noteq> i
              \<and> kp_dist (row ! j) (row ! i) < net_repulse_extent net)
           \<longrightarrow> 0 < repulsive_loss)"
proof -
  have c: "some_pair_closer net modules \<longleftrightarrow>
      (\<exists>m row i j. KPConv m \<in> set modules \<and> deformable m \<and> row \<in> set (KP_locs m)
              \<and> i < net_K net \<and> i < length row \<and> j < length row \<and> j \<noteq> i
              \<and> kp_dist (row ! j) (row ! i) < net_repulse_extent net)"
    unfolding some_pair_closer_def row_close_def by blast
  from regularizer_loop_sign[OF assms] have
    "0 \<le> repulsive_loss" and "0 < repulsive_loss \<longleftrightarrow> some_pair_closer net modules"
    by simp_all
  with c show ?thesis
    by (auto simp: not_less[symmetric] simp del: not_less)
qed

theorem repulsion_zero_or_positive_witness:
  "(regularizer_loop (example_net 3) [KPConv example_kpconv] (0, 0)
      :: unit py_error + real \<times> real) = Inr (0, 1)
   \<and> kp_dist (hd (KP_locs example_kpconv) ! 1) (hd (KP_locs example_kpconv) ! 0) < 3
   \<and> (0::real) < 1"
proof -
  have l: "KP_locs example_kpconv = [ [ [0], [2] ] ]"
    by (simp add: KP_locs_def example_kpconv_def)
  have d: "kp_dist [2] [0] = 2" "kp_dist [0] [2] = 2"
    by (simp_all add: kp_dist_def)
  have r: "(regularizer_loop (example_net 3) [KPConv example_kpconv] (0, 0)
      :: unit py_error + real \<times> real) = Inr (0, 1)"
    by (simp add: example_net_def example_kpconv_def KP_locs_def l1_def kp_distances_def
        kp_dist_def clamped_sq_def upt_rec)
  have e: "\<exists>m row i j. KPConv m \<in> set [KPConv example_kpconv] \<and> deformable m
        \<and> row \<in> set (KP_locs m) \<and> i < net_K (example_net 3) \<and> i < length row
        \<and> j < length row \<and> j \<noteq> i
        \<and> kp_dist (row ! j) (row ! i) < net_repulse_extent (example_net 3)"
  proof (intro exI conjI)
    show "KPConv example_kpconv \<in> set [KPConv example_kpconv]" by simp
    show "deformable example_kpconv" by (simp add: example_kpconv_def)
    show "[ [0], [2] ] \<in> set (KP_locs example_kpconv)" by (simp add: l)
    show "0 < net_K (example_net 3)" by (simp add: example_net_def)
    show "0 < length [ [0], [2 :: real] ]" by simp
    show "1 < length [ [0], [2 :: real] ]" by simp
    show "(1::nat) \<noteq> 0" by simp
    show "kp_dist ([ [0], [2] ] ! 1) ([ [0], [2] ] ! 0) < net_repulse_extent (example_net 3)"
      by (simp add: d example_net_def)
  qed
  from repulsion_zero_or_positive[OF r] e have "(0::real) < 1" by blast
  then show ?thesis using r by (simp add: l d)
qed

subsection \<open>One remapping, written twice\<close>

text \<open>
  Claim C10. The target built in \<open>loss\<close> and the target built in \<open>accuracy\<close> are
  equal, for every list of valid labels and every label tensor.
\<close>

theorem loss_accuracy_same_target:
  "loss_target valid labels = accuracy_target valid labels"
  by (simp add: loss_target_def accuracy_target_def)

end
